theory Spec2Isabelle
  imports Main "HOL-Library.Sublist" "HOL-Library.Log_Nat"
begin

section \<open>Titlebar event registry (Titlebar.tsx, TitlebarProvider)\<close>

text \<open>
  \<^verbatim>\<open>listeners\<close> is a mutable array of listener functions held in a ref. JavaScript
  compares functions by reference, so a listener is modelled by its identity \<open>'l\<close>;
  what a listener does when invoked is recorded as one entry \<open>(listener, msg)\<close> of a
  call log. The registry is the array together with that log.
\<close>

record ('l, 'm) registry =
  listeners :: "'l list"
  calls :: "('l \<times> 'm) list"

text \<open>\<^verbatim>\<open>listeners.current.forEach(func => func(msg))\<close>: the array is walked front to back.\<close>

fun forEach_call :: "'l list \<Rightarrow> 'm \<Rightarrow> ('l \<times> 'm) list \<Rightarrow> ('l \<times> 'm) list" where
  "forEach_call [] msg sofar = sofar"
| "forEach_call (func # rest) msg sofar = forEach_call rest msg (sofar @ [(func, msg)])"

definition sendEvent :: "'m \<Rightarrow> ('l, 'm) registry \<Rightarrow> ('l, 'm) registry" where
  "sendEvent msg r = r\<lparr>calls := forEach_call (listeners r) msg (calls r)\<rparr>"

text \<open>
  The disposer closure returned by \<^verbatim>\<open>subscribe\<close>: when run, it replaces the array by
  \<^verbatim>\<open>listeners.current.filter(func => func !== listener)\<close>, computed on the array as it
  is at that moment.
\<close>

definition disposer :: "'l \<Rightarrow> ('l, 'm) registry \<Rightarrow> ('l, 'm) registry" where
  "disposer listener r = r\<lparr>listeners := filter (\<lambda>func. func \<noteq> listener) (listeners r)\<rparr>"

text \<open>\<^verbatim>\<open>subscribe\<close> pushes the listener at the end and returns the disposer.\<close>

definition subscribe ::
  "'l \<Rightarrow> ('l, 'm) registry \<Rightarrow> ('l, 'm) registry \<times> (('l, 'm) registry \<Rightarrow> ('l, 'm) registry)" where
  "subscribe listener r = (r\<lparr>listeners := listeners r @ [listener]\<rparr>, disposer listener)"

section \<open>Properties of the titlebar registry\<close>

lemma forEach_call_eq: "forEach_call fs msg sofar = sofar @ map (\<lambda>func. (func, msg)) fs"
  by (induction fs arbitrary: sofar) simp_all

lemma count_list_filter_neq:
  "count_list (filter (\<lambda>func. func \<noteq> l) fs) f = (if f = l then 0 else count_list fs f)"
  by (induction fs) auto

text \<open>
  Claim C10. \<open>sendEvent msg\<close> appends to the call log one invocation \<open>(func, msg)\<close> per
  registration, in subscription order, and leaves the array alone; \<open>subscribe\<close> registers
  at the end; the disposer it returns removes every registration of its listener, keeps
  the registrations of all other listeners in their order, and a \<open>sendEvent\<close> after it
  invokes the listener zero times.
\<close>

theorem titlebar_registry:
  "calls (sendEvent msg r) = calls r @ map (\<lambda>func. (func, msg)) (listeners r)
   \<and> listeners (sendEvent msg r) = listeners r
   \<and> listeners (fst (subscribe l r)) = listeners r @ [l]
   \<and> count_list (listeners (snd (subscribe l r) cur)) f
         = (if f = l then 0 else count_list (listeners cur) f)
   \<and> subseq (listeners (snd (subscribe l r) cur)) (listeners cur)
   \<and> count_list (calls (sendEvent msg (snd (subscribe l r) cur))) (l, msg)
         = count_list (calls cur) (l, msg)"
proof -
  have "count_list (map (\<lambda>func. (func, msg)) (filter (\<lambda>func. func \<noteq> l) fs)) (l, msg) = 0" for fs
    by (induction fs) auto
  then show ?thesis
    by (simp add: sendEvent_def forEach_call_eq subscribe_def disposer_def count_list_filter_neq)
qed

text \<open>
  Two listeners \<open>1\<close> and \<open>2\<close>, the first subscribed twice: the event reaches the three
  registrations in order, and after the disposer of \<open>1\<close> only listener \<open>2\<close> is called.
\<close>

theorem titlebar_registry_witness:
  "calls (sendEvent (7::nat) \<lparr>listeners = [1::nat, 2, 1], calls = []\<rparr>) = [(1, 7), (2, 7), (1, 7)]
   \<and> listeners (snd (subscribe 1 \<lparr>listeners = [], calls = []\<rparr>)
         \<lparr>listeners = [1::nat, 2, 1], calls = ([] :: (nat \<times> nat) list)\<rparr>) = [2]
   \<and> calls (sendEvent (7::nat) (snd (subscribe 1 \<lparr>listeners = [], calls = []\<rparr>)
         \<lparr>listeners = [1::nat, 2, 1], calls = []\<rparr>)) = [(2, 7)]"
  using titlebar_registry [of "7::nat" "\<lparr>listeners = [1::nat, 2, 1], calls = []\<rparr>" 1
      "\<lparr>listeners = [1::nat, 2, 1], calls = []\<rparr>" 2]
  by (simp add: sendEvent_def subscribe_def disposer_def)

section \<open>Account view: state, queries and sorting (Account.jsx, AccountInternal)\<close>

text \<open>
  JavaScript values that may be \<^verbatim>\<open>undefined\<close> are options; \<open>falsy\<close> is the truth test
  \<^verbatim>\<open>!v\<close> of such a string (\<^verbatim>\<open>undefined\<close> and the empty string are falsy).
\<close>

definition falsy :: "string option \<Rightarrow> bool" where
  "falsy v = (v = None \<or> v = Some [])"

text \<open>\<^verbatim>\<open>getField\<close>: the query column a table header sorts on; the default case returns its argument.\<close>

fun getField :: "string option \<Rightarrow> string option" where
  "getField None = None"
| "getField (Some fld) =
     (if fld = ''account'' then Some ''account.name''
      else if fld = ''payee'' then Some ''payee.name''
      else if fld = ''category'' then Some ''category.name''
      else if fld = ''payment'' then Some ''amount''
      else if fld = ''deposit'' then Some ''amount''
      else Some fld)"

text \<open>
  \<^verbatim>\<open>state.sort\<close> is the empty array \<^verbatim>\<open>[]\<close> while no sort is set (\<open>None\<close>) and otherwise the
  object \<^verbatim>\<open>{field, ascDesc, prevField, prevAscDesc}\<close> that \<^verbatim>\<open>onSort\<close> stores.
\<close>

record sort_spec =
  field :: string
  ascDesc :: string
  prevField :: "string option"
  prevAscDesc :: "string option"

text \<open>
  A filter condition object. JavaScript compares objects by reference: \<open>cond_ref\<close> is the
  identity of the object, and \<^verbatim>\<open>===\<close> on two conditions compares it.
\<close>

record condition =
  cond_ref :: nat
  cond_field :: string
  cond_op :: string
  cond_value :: string
  customName :: "string option"

record account_row =
  account_id :: string
  account_name :: string

text \<open>
  A saved filter of \<^verbatim>\<open>props.filtersList\<close>, also the argument of \<^verbatim>\<open>onReloadSavedFilter\<close>
  and of \<^verbatim>\<open>onApplyFilter\<close> when a saved filter is applied; \<^verbatim>\<open>state.filterId\<close> keeps its
  \<^verbatim>\<open>id\<close> and \<^verbatim>\<open>status\<close> (\<open>None\<close> while it is the empty array).
\<close>

record saved_filter =
  sf_id :: "string option"
  sf_conditionsOp :: string
  sf_conditions :: "condition list"
  sf_status :: "string option"

record filter_ref =
  ref_id :: "string option"
  ref_status :: "string option"

text \<open>
  A query descriptor is built by immutable builder calls, so it is the tree of those
  calls: the two root queries of \<^verbatim>\<open>makeRootQuery\<close>, \<^verbatim>\<open>.filter({[$and|$or]: [...]})\<close>,
  \<^verbatim>\<open>.orderBy({[field]: direction})\<close> and \<^verbatim>\<open>queries.makeTransactionSearchQuery\<close>.
\<close>

datatype query =
    MakeTransactionsQuery "string option"
  | LocationFilterQuery string
  | Filter string "string list" query
  | OrderBy "string option" "string option" query
  | MakeTransactionSearchQuery query string string

text \<open>
  Calls that reach the paged runner or suspend on the data service are recorded in
  order: \<^verbatim>\<open>this.updateQuery(query, isFiltered)\<close>, \<^verbatim>\<open>this.applyFilters(conditions)\<close> and
  \<^verbatim>\<open>this.onSearch(value)\<close>.
\<close>

datatype call =
    UpdateQuery query bool
  | ApplyFilters "condition list"
  | OnSearch string

text \<open>
  The component instance: the props and state fields read below, the instance fields
  \<^verbatim>\<open>rootQuery\<close> and \<^verbatim>\<open>currentQuery\<close>, and the recorded calls.
\<close>

record view =
  accountId :: "string option"
  accounts :: "account_row list"
  dateFormat :: string
  locationFilter :: "string option"
  filtersList :: "saved_filter list"
  search :: string
  filters :: "condition list"
  filterId :: "filter_ref option"
  conditionsOp :: string
  sort_s :: "sort_spec option"
  rootQuery :: query
  currentQuery :: query
  trace :: "call list"

text \<open>Reads of \<^verbatim>\<open>this.state.sort.<key>\<close>: \<^verbatim>\<open>undefined\<close> on the empty array.\<close>

definition sort_field :: "view \<Rightarrow> string option" where
  "sort_field s = map_option field (sort_s s)"

definition sort_ascDesc :: "view \<Rightarrow> string option" where
  "sort_ascDesc s = map_option ascDesc (sort_s s)"

definition sort_prevField :: "view \<Rightarrow> string option" where
  "sort_prevField s = Option.bind (sort_s s) prevField"

definition sort_prevAscDesc :: "view \<Rightarrow> string option" where
  "sort_prevAscDesc s = Option.bind (sort_s s) prevAscDesc"

definition record_call :: "call \<Rightarrow> view \<Rightarrow> view" where
  "record_call c s = s\<lparr>trace := trace s @ [c]\<rparr>"

text \<open>
  \<^verbatim>\<open>makeRootQuery\<close>: the filter of \<^verbatim>\<open>props.location.state\<close> when there is one, else the
  transactions query of the account.
\<close>

definition makeRootQuery :: "view \<Rightarrow> query" where
  "makeRootQuery s =
     (case locationFilter s of Some f \<Rightarrow> LocationFilterQuery f
      | None \<Rightarrow> MakeTransactionsQuery (accountId s))"

text \<open>\<^verbatim>\<open>fetchTransactions\<close> (\<^verbatim>\<open>updateQuery(query)\<close> leaves \<^verbatim>\<open>isFiltered\<close> undefined, which is falsy).\<close>

definition fetchTransactions :: "view \<Rightarrow> view" where
  "fetchTransactions s =
     (let query = makeRootQuery s
      in record_call (UpdateQuery query False) (s\<lparr>rootQuery := query, currentQuery := query\<rparr>))"

text \<open>
  The state the constructor sets up, and the view once \<^verbatim>\<open>componentDidMount\<close> has run
  \<^verbatim>\<open>fetchTransactions\<close>. Before that \<^verbatim>\<open>rootQuery\<close> and \<^verbatim>\<open>currentQuery\<close> are unset; the
  constructor state carries the root query in their place. The saved filters are a
  prop, empty here.
\<close>

definition constructed :: "string option \<Rightarrow> account_row list \<Rightarrow> string \<Rightarrow> string option \<Rightarrow> view" where
  "constructed aid accts fmt loc =
     \<lparr>accountId = aid, accounts = accts, dateFormat = fmt, locationFilter = loc,
      filtersList = [], search = [], filters = [], filterId = None, conditionsOp = ''and'',
      sort_s = None,
      rootQuery = (case loc of Some f \<Rightarrow> LocationFilterQuery f | None \<Rightarrow> MakeTransactionsQuery aid),
      currentQuery = (case loc of Some f \<Rightarrow> LocationFilterQuery f | None \<Rightarrow> MakeTransactionsQuery aid),
      trace = []\<rparr>"

definition mounted :: "string option \<Rightarrow> account_row list \<Rightarrow> string \<Rightarrow> string option \<Rightarrow> view" where
  "mounted aid accts fmt loc = fetchTransactions (constructed aid accts fmt loc)"

subsection \<open>Balance eligibility\<close>

text \<open>
  \<^verbatim>\<open>canCalculateBalance\<close>: the account must be found in \<^verbatim>\<open>props.accounts\<close>, the search
  empty, no filter active, and the sort either the empty array
  (\<^verbatim>\<open>sort.length === 0\<close>) or an object whose \<^verbatim>\<open>field\<close> is \<^verbatim>\<open>'date'\<close> and whose
  \<^verbatim>\<open>ascDesc\<close> is \<^verbatim>\<open>'desc'\<close>.
\<close>

definition canCalculateBalance :: "view \<Rightarrow> bool" where
  "canCalculateBalance s =
     (let account = find (\<lambda>account. Some (account_id account) = accountId s) (accounts s)
      in account \<noteq> None \<and> search s = [] \<and> length (filters s) = 0 \<and>
         (sort_s s = None \<or> (sort_field s = Some ''date'' \<and> sort_ascDesc s = Some ''desc'')))"

record balance_row =
  row_id :: string
  balance :: int

text \<open>
  Modelled from the spec: \<^verbatim>\<open>groupById\<close> (loot-core/src/shared/util) is not among the
  sources; the balance calculator "returns a mapping from row id to cumulative balance
  as of that row", so the rows are stored under their ids, a later row replacing an
  earlier one of the same id.
\<close>

definition groupById :: "balance_row list \<Rightarrow> (string \<rightharpoonup> balance_row)" where
  "groupById data = foldl (\<lambda>res item. res(row_id item \<mapsto> item)) Map.empty data"

text \<open>
  \<^verbatim>\<open>calculateBalances\<close>; \<open>data\<close> is what the running-sum query returned. \<open>None\<close> is
  \<^verbatim>\<open>null\<close>.
\<close>

definition calculateBalances :: "view \<Rightarrow> balance_row list \<Rightarrow> (string \<rightharpoonup> balance_row) option" where
  "calculateBalances s data =
     (if \<not> canCalculateBalance s then None else Some (groupById data))"

text \<open>
  The claim's condition on the sort, in the spec's words: unset, or a single-key sort on
  the date field in descending order.
\<close>

definition spec_sort_allows_balance :: "sort_spec option \<Rightarrow> bool" where
  "spec_sort_allows_balance so =
     (case so of None \<Rightarrow> True
      | Some r \<Rightarrow> field r = ''date'' \<and> ascDesc r = ''desc'' \<and> prevField r = None)"

subsection \<open>Sorting\<close>

text \<open>
  \<^verbatim>\<open>applySort(field, ascDesc, prevField, prevAscDesc)\<close>. Called without arguments by
  \<^verbatim>\<open>applyFilters\<close>, all four are \<^verbatim>\<open>undefined\<close>. In the branch with active filters the
  asynchronous \<^verbatim>\<open>applyFilters\<close> is started and suspends at its first \<^verbatim>\<open>await\<close>, so only the
  call is recorded before the ordering is put on \<^verbatim>\<open>this.currentQuery\<close>.
\<close>

definition applySort ::
  "string option \<Rightarrow> string option \<Rightarrow> string option \<Rightarrow> string option \<Rightarrow> view \<Rightarrow> view" where
  "applySort fld dir prevFld prevDir s =
     (let sortField = getField (if falsy fld then sort_field s else fld);
          sortAscDesc = (if falsy dir then sort_ascDesc s else dir);
          sortPrevField = getField (if falsy prevFld then sort_prevField s else prevFld);
          sortPrevAscDesc = (if falsy prevFld then sort_prevAscDesc s else prevDir);
          s1 = (if falsy fld then s\<lparr>currentQuery := OrderBy sortField sortAscDesc (currentQuery s)\<rparr>
                else if length (filters s) > 0 then
                  (let s' = record_call (ApplyFilters (filters s)) s
                   in s'\<lparr>currentQuery := OrderBy sortField sortAscDesc (currentQuery s')\<rparr>)
                else s\<lparr>currentQuery := OrderBy sortField sortAscDesc (rootQuery s)\<rparr>);
          s2 = (if \<not> falsy sortPrevField
                then s1\<lparr>currentQuery := OrderBy sortPrevField sortPrevAscDesc (currentQuery s1)\<rparr>
                else s1)
      in record_call (UpdateQuery (currentQuery s2) (length (filters s2) > 0)) s2)"

text \<open>
  \<^verbatim>\<open>onSort(headerClicked, ascDesc)\<close>. \<^verbatim>\<open>setState\<close> is deferred, so \<^verbatim>\<open>applySort\<close> and the
  search test still read the state of entry; the new \<^verbatim>\<open>sort\<close> object is in place when
  the handler has returned.
\<close>

definition onSort :: "string \<Rightarrow> string \<Rightarrow> view \<Rightarrow> view" where
  "onSort headerClicked dir s =
     (let same = (Some headerClicked = sort_field s);
          prevFld = (if same then sort_prevField s else sort_field s);
          prevDir = (if same then sort_prevAscDesc s else sort_ascDesc s);
          newSort = (if same then map_option (\<lambda>so. so\<lparr>ascDesc := dir\<rparr>) (sort_s s)
                     else Some \<lparr>field = headerClicked, ascDesc = dir,
                                prevField = sort_field s, prevAscDesc = sort_ascDesc s\<rparr>);
          s1 = applySort (Some headerClicked) (Some dir) prevFld prevDir s;
          s2 = (if search s1 \<noteq> [] then record_call (OnSearch (search s1)) s1 else s1)
      in s2\<lparr>sort_s := newSort\<rparr>)"

text \<open>A run of header clicks, each one handled after the state of the one before is in place.\<close>

fun onSort_all :: "(string \<times> string) list \<Rightarrow> view \<Rightarrow> view" where
  "onSort_all [] s = s"
| "onSort_all ((headerClicked, dir) # rest) s = onSort_all rest (onSort headerClicked dir s)"

text \<open>The sort keys a state holds: the current one, then the previous one when there is one.\<close>

definition sort_keys :: "sort_spec option \<Rightarrow> (string \<times> string option) list" where
  "sort_keys so =
     (case so of None \<Rightarrow> []
      | Some r \<Rightarrow> (field r, Some (ascDesc r)) #
          (case prevField r of None \<Rightarrow> [] | Some p \<Rightarrow> [(p, prevAscDesc r)]))"

text \<open>A query ordered by a list of keys, first key innermost.\<close>

definition orderBy_keys :: "query \<Rightarrow> (string \<times> string option) list \<Rightarrow> query" where
  "orderBy_keys q ks = foldl (\<lambda>q (f, d). OrderBy (getField (Some f)) d q) q ks"

subsection \<open>Filter handlers\<close>

text \<open>
  The handlers that change the filter conditions or their combinator. \<^verbatim>\<open>applyFilters\<close>
  is asynchronous and not awaited; what it does once started (it has the data service
  translate the conditions, replaces \<^verbatim>\<open>this.currentQuery\<close> and ends in \<^verbatim>\<open>updateQuery\<close>) is
  not part of a handler's definition: the call is recorded with its argument.
  \<^verbatim>\<open>setState\<close> is deferred, so the tests on \<^verbatim>\<open>this.state\<close> read the state of entry.
\<close>

definition mark_changed :: "filter_ref option \<Rightarrow> filter_ref option" where
  "mark_changed f =
     (case f of None \<Rightarrow> Some \<lparr>ref_id = None, ref_status = Some ''changed''\<rparr>
      | Some r \<Rightarrow> Some (r\<lparr>ref_status := Some ''changed''\<rparr>))"

text \<open>\<^verbatim>\<open>{...this.state.filterId, ...savedFilter}\<close>, for the two keys kept.\<close>

definition merge_ref :: "filter_ref option \<Rightarrow> saved_filter \<Rightarrow> filter_ref option" where
  "merge_ref f sf =
     Some \<lparr>ref_id = (case sf_id sf of Some i \<Rightarrow> Some i | None \<Rightarrow> Option.bind f ref_id),
           ref_status = (case sf_status sf of Some st \<Rightarrow> Some st | None \<Rightarrow> Option.bind f ref_status)\<rparr>"

definition onCondOpChange :: "string \<Rightarrow> condition list \<Rightarrow> view \<Rightarrow> view" where
  "onCondOpChange v fs s =
     (let s1 = record_call (ApplyFilters fs) s;
          s2 = (if search s1 \<noteq> [] then record_call (OnSearch (search s1)) s1 else s1)
      in s2\<lparr>conditionsOp := v, filterId := mark_changed (filterId s)\<rparr>)"

text \<open>
  \<^verbatim>\<open>onReloadSavedFilter(savedFilter, item)\<close>. With \<^verbatim>\<open>item === 'reload'\<close> and no saved
  filter of the current id, \<^verbatim>\<open>getFilter\<close> is \<^verbatim>\<open>undefined\<close> and reading its
  \<^verbatim>\<open>conditionsOp\<close> throws (\<open>None\<close>).
\<close>

definition onReloadSavedFilter :: "saved_filter \<Rightarrow> string \<Rightarrow> view \<Rightarrow> view option" where
  "onReloadSavedFilter savedFilter item s =
     (if item = ''reload'' then
        (case filter (\<lambda>f. sf_id f = Option.bind (filterId s) ref_id) (filtersList s) of
           [] \<Rightarrow> None
         | getFilter # _ \<Rightarrow>
             Some ((record_call (ApplyFilters (sf_conditions getFilter)) s)
                     \<lparr>conditionsOp := sf_conditionsOp getFilter,
                      filterId := merge_ref (filterId s) savedFilter\<rparr>))
      else if \<not> falsy (sf_status savedFilter) then
        Some ((record_call (ApplyFilters (sf_conditions savedFilter)) s)
                \<lparr>conditionsOp := sf_conditionsOp savedFilter,
                 filterId := merge_ref (filterId s) savedFilter\<rparr>)
      else Some (s\<lparr>filterId := merge_ref (filterId s) savedFilter\<rparr>))"

definition onClearFilters :: "view \<Rightarrow> view" where
  "onClearFilters s =
     (let s1 = record_call (ApplyFilters []) s;
          s2 = (if search s1 \<noteq> [] then record_call (OnSearch (search s1)) s1 else s1)
      in s2\<lparr>conditionsOp := ''and'', filterId := None\<rparr>)"

definition onUpdateFilter :: "condition \<Rightarrow> condition \<Rightarrow> view \<Rightarrow> view" where
  "onUpdateFilter oldFilter updatedFilter s =
     (let s1 = record_call
                 (ApplyFilters (map (\<lambda>f. if cond_ref f = cond_ref oldFilter then updatedFilter else f)
                                 (filters s))) s;
          s2 = (if search s1 \<noteq> [] then record_call (OnSearch (search s1)) s1 else s1)
      in s2\<lparr>filterId := mark_changed (filterId s)\<rparr>)"

definition onDeleteFilter :: "condition \<Rightarrow> view \<Rightarrow> view" where
  "onDeleteFilter flt s =
     (let s1 = record_call (ApplyFilters (filter (\<lambda>f. cond_ref f \<noteq> cond_ref flt) (filters s))) s;
          s2 = (if search s1 \<noteq> [] then record_call (OnSearch (search s1)) s1 else s1)
      in if length (filters s) = 1 then s2\<lparr>filterId := None, conditionsOp := ''and''\<rparr>
         else s2\<lparr>filterId := mark_changed (filterId s)\<rparr>)"

text \<open>
  \<^verbatim>\<open>onApplyFilter(cond)\<close>: \<open>cond\<close> is a saved filter (it has \<^verbatim>\<open>conditions\<close>) or one
  condition, which replaces the conditions of its \<^verbatim>\<open>customName\<close> when it has one.
\<close>

datatype filter_arg = SavedFilter saved_filter | Condition condition

definition onApplyFilter :: "filter_arg \<Rightarrow> view \<Rightarrow> view" where
  "onApplyFilter cond s =
     (case cond of
        SavedFilter sf \<Rightarrow>
          (let s1 = record_call (ApplyFilters (sf_conditions sf)) s;
               s2 = (if search s1 \<noteq> [] then record_call (OnSearch (search s1)) s1 else s1)
           in s2\<lparr>filterId := Some \<lparr>ref_id = sf_id sf, ref_status = Some ''saved''\<rparr>,
                  conditionsOp := sf_conditionsOp sf\<rparr>)
      | Condition c \<Rightarrow>
          (let fs = (if \<not> falsy (customName c)
                     then filter (\<lambda>f. customName f \<noteq> customName c) (filters s) else filters s);
               s1 = record_call (ApplyFilters (fs @ [c])) s;
               s2 = (if search s1 \<noteq> [] then record_call (OnSearch (search s1)) s1 else s1)
           in s2\<lparr>filterId := mark_changed (filterId s)\<rparr>))"

text \<open>
  \<^verbatim>\<open>onMenuSelect('remove-sorting')\<close>: the body is the \<^verbatim>\<open>setState\<close> callback and runs with
  the sort already cleared.
\<close>

definition remove_sorting :: "view \<Rightarrow> view" where
  "remove_sorting s =
     (let s0 = s\<lparr>sort_s := None\<rparr>;
          s1 = (if length (filters s0) > 0 then record_call (ApplyFilters (filters s0)) s0
                else fetchTransactions s0)
      in if search s1 \<noteq> [] then record_call (OnSearch (search s1)) s1 else s1)"

text \<open>Whether a handler run started a search: the calls recorded beyond those of \<open>s\<close>.\<close>

definition reruns_search :: "view \<Rightarrow> view \<Rightarrow> bool" where
  "reruns_search s s' = (OnSearch (search s) \<in> set (drop (length (trace s)) (trace s')))"


subsection \<open>Properties of balance eligibility and sorting\<close>

lemmas view_reads = sort_field_def sort_ascDesc_def sort_prevField_def sort_prevAscDesc_def
  record_call_def falsy_def

lemmas view_setup = constructed_def mounted_def fetchTransactions_def makeRootQuery_def

text \<open>
  Claim C1, as the code has it. \<open>calculateBalances\<close> returns a balance map exactly when
  the viewed account is among the accounts, the search text is empty, no filter
  condition is active, and the sort is unset or has \<open>date\<close> as its current field with
  direction \<open>desc\<close>; otherwise it returns null. The previous sort key is not looked at.
\<close>

theorem balance_eligibility:
  "calculateBalances s data =
     (if (\<exists>account \<in> set (accounts s). Some (account_id account) = accountId s)
         \<and> search s = [] \<and> filters s = []
         \<and> (case sort_s s of None \<Rightarrow> True | Some r \<Rightarrow> field r = ''date'' \<and> ascDesc r = ''desc'')
      then Some (groupById data) else None)"
  by (auto simp: calculateBalances_def canCalculateBalance_def find_None_iff sort_field_def
      sort_ascDesc_def split: option.splits)

text \<open>A freshly mounted view of an existing account has a balance map; one with a search has none.\<close>

theorem balance_eligibility_witness:
  "calculateBalances (mounted (Some ''a1'') [\<lparr>account_id = ''a1'', account_name = ''Checking''\<rparr>] ''MM/dd/yyyy'' None)
      [\<lparr>row_id = ''t1'', balance = 5\<rparr>] = Some (groupById [\<lparr>row_id = ''t1'', balance = 5\<rparr>])
   \<and> calculateBalances ((mounted (Some ''a1'') [\<lparr>account_id = ''a1'', account_name = ''Checking''\<rparr>] ''MM/dd/yyyy'' None)
      \<lparr>search := ''rent''\<rparr>) [\<lparr>row_id = ''t1'', balance = 5\<rparr>] = None"
  using balance_eligibility [of "mounted (Some ''a1'') [\<lparr>account_id = ''a1'', account_name = ''Checking''\<rparr>] ''MM/dd/yyyy'' None"
      "[\<lparr>row_id = ''t1'', balance = 5\<rparr>]"]
    balance_eligibility [of "(mounted (Some ''a1'') [\<lparr>account_id = ''a1'', account_name = ''Checking''\<rparr>] ''MM/dd/yyyy'' None)\<lparr>search := ''rent''\<rparr>"
      "[\<lparr>row_id = ''t1'', balance = 5\<rparr>]"]
  by (simp add: view_setup view_reads Let_def)

text \<open>
  The claim as stated fails: clicking the payee header and then the date header
  (descending) leaves a two-key sort, date then payee, which is also how the query is
  ordered, and the balance map is still computed.
\<close>

theorem balance_two_key_sort_counterexample:
  "calculateBalances (onSort ''date'' ''desc'' (onSort ''payee'' ''asc''
      (mounted (Some ''a1'') [\<lparr>account_id = ''a1'', account_name = ''Checking''\<rparr>] ''MM/dd/yyyy'' None))) [] \<noteq> None
   \<and> sort_keys (sort_s (onSort ''date'' ''desc'' (onSort ''payee'' ''asc''
      (mounted (Some ''a1'') [\<lparr>account_id = ''a1'', account_name = ''Checking''\<rparr>] ''MM/dd/yyyy'' None))))
       = [(''date'', Some ''desc''), (''payee'', Some ''asc'')]
   \<and> currentQuery (onSort ''date'' ''desc'' (onSort ''payee'' ''asc''
      (mounted (Some ''a1'') [\<lparr>account_id = ''a1'', account_name = ''Checking''\<rparr>] ''MM/dd/yyyy'' None)))
       = OrderBy (Some ''payee.name'') (Some ''asc'') (OrderBy (Some ''date'') (Some ''desc'')
           (MakeTransactionsQuery (Some ''a1'')))
   \<and> \<not> spec_sort_allows_balance (sort_s (onSort ''date'' ''desc'' (onSort ''payee'' ''asc''
      (mounted (Some ''a1'') [\<lparr>account_id = ''a1'', account_name = ''Checking''\<rparr>] ''MM/dd/yyyy'' None))))"
  by (simp add: calculateBalances_def canCalculateBalance_def onSort_def applySort_def view_setup
      view_reads spec_sort_allows_balance_def sort_keys_def Let_def)

lemma sort_s_onSort_same:
  "sort_s s = Some r \<Longrightarrow> headerClicked = field r \<Longrightarrow>
   sort_s (onSort headerClicked dir s) = Some (r\<lparr>ascDesc := dir\<rparr>)"
  by (simp add: onSort_def Let_def sort_field_def)

lemma sort_s_onSort_other:
  "sort_field s \<noteq> Some headerClicked \<Longrightarrow>
   sort_s (onSort headerClicked dir s) =
     Some \<lparr>field = headerClicked, ascDesc = dir, prevField = sort_field s, prevAscDesc = sort_ascDesc s\<rparr>"
  by (auto simp add: onSort_def Let_def)

lemma sort_keys_le2: "length (sort_keys so) \<le> 2"
  by (simp add: sort_keys_def split: option.splits)

lemma sort_keys_onSort:
  "sort_keys (sort_s (onSort headerClicked dir s)) =
     (if sort_field s = Some headerClicked
      then (headerClicked, Some dir) # tl (sort_keys (sort_s s))
      else (headerClicked, Some dir) # take 1 (sort_keys (sort_s s)))"
  by (auto simp add: onSort_def Let_def sort_keys_def sort_field_def sort_ascDesc_def
      split: option.splits)

lemma sort_field_onSort: "sort_field (onSort headerClicked dir s) = Some headerClicked"
  by (cases "sort_s s") (auto simp add: onSort_def Let_def sort_field_def)

lemma sort_keys_two_clicks:
  assumes "h' \<noteq> h"
  shows "sort_keys (sort_s (onSort h' d' (onSort h d s))) = [(h', Some d'), (h, Some d)]"
proof -
  have "sort_field (onSort h d s) \<noteq> Some h'"
    using assms by (simp add: sort_field_onSort)
  then have "sort_keys (sort_s (onSort h' d' (onSort h d s)))
      = (h', Some d') # take 1 (sort_keys (sort_s (onSort h d s)))"
    by (simp add: sort_keys_onSort)
  also have "take 1 (sort_keys (sort_s (onSort h d s))) = [(h, Some d)]"
    by (simp add: sort_keys_onSort)
  finally show ?thesis .
qed

lemma currentQuery_onSort:
  assumes "filters s = []" "headerClicked \<noteq> []" "dir \<noteq> []"
    and "\<forall>(f, d) \<in> set (sort_keys (sort_s s)). f \<noteq> []"
  shows "currentQuery (onSort headerClicked dir s) =
      orderBy_keys (rootQuery s) (sort_keys (sort_s (onSort headerClicked dir s)))"
proof (cases "sort_s s")
  case None
  with assms show ?thesis
    by (simp add: onSort_def applySort_def Let_def view_reads orderBy_keys_def sort_keys_def)
next
  case (Some r)
  with assms show ?thesis
    by (auto simp add: onSort_def applySort_def Let_def view_reads orderBy_keys_def sort_keys_def
        split: option.splits)
qed

text \<open>
  Claim C5. Clicking the header of the current sort column changes only the direction:
  field, previous field and previous direction stay. Clicking another header makes the
  clicked column current and the old current key the previous one; the old previous key
  is gone, so after two clicks on different headers the state holds exactly those two
  keys whatever it held before. After any run of clicks at most two keys are held. In a
  view without filters the query issued is the root query ordered by exactly the keys
  held.
\<close>

theorem onSort_history:
  "(sort_s s = Some r \<and> headerClicked = field r \<longrightarrow>
      sort_s (onSort headerClicked dir s) = Some (r\<lparr>ascDesc := dir\<rparr>))
   \<and> (sort_field s \<noteq> Some headerClicked \<longrightarrow>
      sort_s (onSort headerClicked dir s) =
        Some \<lparr>field = headerClicked, ascDesc = dir,
              prevField = sort_field s, prevAscDesc = sort_ascDesc s\<rparr>)
   \<and> (h' \<noteq> h \<longrightarrow>
      sort_keys (sort_s (onSort h' d' (onSort h d s))) = [(h', Some d'), (h, Some d)])
   \<and> length (sort_keys (sort_s (onSort_all clicks s))) \<le> 2
   \<and> (filters s = [] \<and> headerClicked \<noteq> [] \<and> dir \<noteq> []
        \<and> (\<forall>(f, d) \<in> set (sort_keys (sort_s s)). f \<noteq> []) \<longrightarrow>
      currentQuery (onSort headerClicked dir s) =
        orderBy_keys (rootQuery s) (sort_keys (sort_s (onSort headerClicked dir s))))"
  using sort_s_onSort_same [of s r headerClicked dir] sort_s_onSort_other [of s headerClicked dir]
    sort_keys_two_clicks [of h' h d' d s] sort_keys_le2 [of "sort_s (onSort_all clicks s)"]
    currentQuery_onSort [of s headerClicked dir]
  by blast

text \<open>
  Payee ascending, date descending, then date again (ascending) keeps payee as the
  previous key; clicking amount instead makes date the previous key and drops payee.
\<close>

theorem onSort_history_witness:
  "sort_s (onSort ''date'' ''asc'' (onSort ''date'' ''desc'' (onSort ''payee'' ''asc''
      (mounted (Some ''a1'') [] ''MM/dd/yyyy'' None))))
     = Some \<lparr>field = ''date'', ascDesc = ''asc'', prevField = Some ''payee'', prevAscDesc = Some ''asc''\<rparr>
   \<and> sort_s (onSort ''amount'' ''asc'' (onSort ''date'' ''desc'' (onSort ''payee'' ''asc''
      (mounted (Some ''a1'') [] ''MM/dd/yyyy'' None))))
     = Some \<lparr>field = ''amount'', ascDesc = ''asc'', prevField = Some ''date'', prevAscDesc = Some ''desc''\<rparr>
   \<and> currentQuery (onSort ''amount'' ''asc'' (onSort ''date'' ''desc'' (onSort ''payee'' ''asc''
      (mounted (Some ''a1'') [] ''MM/dd/yyyy'' None))))
     = OrderBy (Some ''date'') (Some ''desc'') (OrderBy (Some ''amount'') (Some ''asc'')
         (MakeTransactionsQuery (Some ''a1'')))
   \<and> sort_keys (sort_s (onSort ''date'' ''desc'' (onSort ''payee'' ''asc''
      (mounted (Some ''a1'') [] ''MM/dd/yyyy'' None))))
     = [(''date'', Some ''desc''), (''payee'', Some ''asc'')]"
proof -
  let ?m = "mounted (Some ''a1'') [] ''MM/dd/yyyy'' None"
  let ?s = "onSort ''date'' ''desc'' (onSort ''payee'' ''asc'' ?m)"
  let ?r = "\<lparr>field = ''date'', ascDesc = ''desc'', prevField = Some ''payee'', prevAscDesc = Some ''asc''\<rparr>"
  have s: "sort_s ?s = Some ?r"
    by (simp add: onSort_def applySort_def view_setup view_reads Let_def)
  have f: "filters ?s = []" and q: "rootQuery ?s = MakeTransactionsQuery (Some ''a1'')"
    by (simp_all add: onSort_def applySort_def view_setup view_reads Let_def)
  have k: "\<forall>(f, d) \<in> set (sort_keys (sort_s ?s)). f \<noteq> []"
    by (simp add: s sort_keys_def)
  have n: "sort_field ?s \<noteq> Some ''amount''"
    by (simp add: s sort_field_def)
  from onSort_history [of ?s ?r "''date''" "''asc''" "''x''" "''y''" "''a''" "''b''" "[]"] s
  have 1: "sort_s (onSort ''date'' ''asc'' ?s) = Some (?r\<lparr>ascDesc := ''asc''\<rparr>)"
    by simp
  from onSort_history [of ?s ?r "''amount''" "''asc''" "''x''" "''y''" "''a''" "''b''" "[]"] n f k
  have 2: "sort_s (onSort ''amount'' ''asc'' ?s) =
        Some \<lparr>field = ''amount'', ascDesc = ''asc'',
              prevField = sort_field ?s, prevAscDesc = sort_ascDesc ?s\<rparr>"
    and 3: "currentQuery (onSort ''amount'' ''asc'' ?s) =
        orderBy_keys (rootQuery ?s) (sort_keys (sort_s (onSort ''amount'' ''asc'' ?s)))"
    by simp_all
  from onSort_history [of ?m ?r "''date''" "''asc''" "''date''" "''payee''" "''desc''" "''asc''" "[]"]
  have 4: "sort_keys (sort_s ?s) = [(''date'', Some ''desc''), (''payee'', Some ''asc'')]"
    by simp
  from 1 2 3 4 show ?thesis
    by (simp add: s q sort_field_def sort_ascDesc_def sort_keys_def orderBy_keys_def)
qed

section \<open>Batch operations on transactions (Account.jsx)\<close>

text \<open>
  A transaction row with the fields the batch operations read or write. \<open>id_t\<close> is the
  \<^verbatim>\<open>id\<close> and \<open>notes_t\<close> the \<^verbatim>\<open>notes\<close>; \<open>parent_id\<close> is \<^verbatim>\<open>null\<close> (\<open>None\<close>) on a row that is
  no split child. Amounts are integers (minor currency units).
\<close>

record transaction =
  id_t :: string
  account :: string
  payee :: "string option"
  category :: "string option"
  notes_t :: "string option"
  amount :: int
  date :: string
  cleared :: bool
  reconciled :: bool
  is_parent :: bool
  parent_id :: "string option"

text \<open>
  The diff a transform returns, and the \<^verbatim>\<open>changes\<close> object sent to the data service,
  whose keys may be absent (\<open>None\<close>).
\<close>

record diff =
  diff_added :: "transaction list"
  diff_deleted :: "transaction list"
  diff_updated :: "transaction list"

record changes =
  added :: "transaction list option"
  deleted :: "transaction list option"
  updated :: "transaction list option"

definition empty_diff :: diff where
  "empty_diff = \<lparr>diff_added = [], diff_deleted = [], diff_updated = []\<rparr>"

text \<open>
  Modelled from the spec: \<^verbatim>\<open>updateTransaction\<close> (loot-core/src/shared/transactions) is
  not among the sources. The spec has the shared update transform "compute a pure
  in-memory diff (added/updated/deleted transaction records) by applying the requested
  change": the changed row, when a row of its id is in the list, is the one updated
  record of the diff; otherwise the diff is empty.
\<close>

definition updateTransaction :: "transaction list \<Rightarrow> transaction \<Rightarrow> diff" where
  "updateTransaction transactions transaction =
     (if id_t transaction \<in> id_t ` set transactions
      then empty_diff\<lparr>diff_updated := [transaction]\<rparr>
      else empty_diff)"

definition children_of :: "string \<Rightarrow> transaction list \<Rightarrow> transaction list" where
  "children_of pid transactions = filter (\<lambda>t. parent_id t = Some pid) transactions"

text \<open>
  Modelled from the spec: \<^verbatim>\<open>deleteTransaction\<close> (loot-core/src/shared/transactions) is
  not among the sources. The spec has the shared delete transform cascade ("parent
  deletion cascades" to the children) and "re-derive parent totals when a child is
  removed": deleting a row that is no child deletes it and its children; deleting a
  child deletes it and updates its parent's amount to the sum of the children left.
\<close>

definition deleteTransaction :: "transaction list \<Rightarrow> string \<Rightarrow> diff" where
  "deleteTransaction transactions tid =
     (case find (\<lambda>t. id_t t = tid) transactions of
        None \<Rightarrow> empty_diff
      | Some tran \<Rightarrow>
          (case parent_id tran of
             None \<Rightarrow> empty_diff\<lparr>diff_deleted := tran # children_of tid transactions\<rparr>
           | Some pid \<Rightarrow>
               empty_diff\<lparr>diff_deleted := [tran],
                 diff_updated :=
                   map (\<lambda>parent. parent\<lparr>amount :=
                          sum_list (map amount (filter (\<lambda>t. id_t t \<noteq> tid) (children_of pid transactions)))\<rparr>)
                     (filter (\<lambda>t. id_t t = pid) transactions)\<rparr>))"

text \<open>
  Modelled from the spec: \<^verbatim>\<open>applyChanges\<close> (loot-core/src/shared/util) is not among the
  sources. It brings the list in step with a diff ("keep an updated list of
  transactions", as the comment at its call has it): added rows are appended, an
  updated row replaces the row of its id, a deleted row is removed by its id.
\<close>

definition applyChanges :: "diff \<Rightarrow> transaction list \<Rightarrow> transaction list" where
  "applyChanges d items =
     filter (\<lambda>t. id_t t \<notin> id_t ` set (diff_deleted d))
       (foldl (\<lambda>its u. map (\<lambda>t. if id_t t = id_t u then u else t) its)
          (items @ diff_added d) (diff_updated d))"

text \<open>
  Modelled from the spec: the data service's \<^verbatim>\<open>transactions-batch-update\<close> is not among
  the sources; it takes "the diff as one atomic batch", and is modelled as applying the
  lists that are present to the stored rows in the same way.
\<close>

definition batch_update :: "changes \<Rightarrow> transaction list \<Rightarrow> transaction list" where
  "batch_update c db =
     applyChanges \<lparr>diff_added = (case added c of None \<Rightarrow> [] | Some l \<Rightarrow> l),
                   diff_deleted = (case deleted c of None \<Rightarrow> [] | Some l \<Rightarrow> l),
                   diff_updated = (case updated c of None \<Rightarrow> [] | Some l \<Rightarrow> l)\<rparr> db"

text \<open>\<^verbatim>\<open>changes.k ? changes.k.concat(d) : d\<close>; an array, even an empty one, is truthy.\<close>

definition concat_or :: "transaction list option \<Rightarrow> transaction list \<Rightarrow> transaction list option" where
  "concat_or k d = (case k of None \<Rightarrow> Some d | Some l \<Rightarrow> Some (l @ d))"

subsection \<open>Batch edit\<close>

text \<open>The value handed to \<^verbatim>\<open>onChange(name, value)\<close> by the edit-field modal.\<close>

datatype field_value = VNull | VBool bool | VNum int | VStr string

text \<open>
  \<^verbatim>\<open>{...trans, [name]: value}\<close> on the typed row: the named field takes the value; a name
  or a value the row has no typed field for leaves the modelled fields as they are.
\<close>

definition set_field :: "string \<Rightarrow> field_value \<Rightarrow> transaction \<Rightarrow> transaction" where
  "set_field name v t =
     (if name = ''cleared'' then (case v of VBool b \<Rightarrow> t\<lparr>cleared := b\<rparr> | _ \<Rightarrow> t)
      else if name = ''amount'' then (case v of VNum n \<Rightarrow> t\<lparr>amount := n\<rparr> | _ \<Rightarrow> t)
      else if name = ''account'' then (case v of VStr a \<Rightarrow> t\<lparr>account := a\<rparr> | _ \<Rightarrow> t)
      else if name = ''date'' then (case v of VStr d \<Rightarrow> t\<lparr>date := d\<rparr> | _ \<Rightarrow> t)
      else if name = ''payee'' then
        (case v of VStr a \<Rightarrow> t\<lparr>payee := Some a\<rparr> | VNull \<Rightarrow> t\<lparr>payee := None\<rparr> | _ \<Rightarrow> t)
      else if name = ''category'' then
        (case v of VStr a \<Rightarrow> t\<lparr>category := Some a\<rparr> | VNull \<Rightarrow> t\<lparr>category := None\<rparr> | _ \<Rightarrow> t)
      else if name = ''notes'' then
        (case v of VStr a \<Rightarrow> t\<lparr>notes_t := Some a\<rparr> | VNull \<Rightarrow> t\<lparr>notes_t := None\<rparr> | _ \<Rightarrow> t)
      else t)"

text \<open>
  The body of \<^verbatim>\<open>transactions.forEach\<close> in \<^verbatim>\<open>onChange\<close>. The loop walks the array that
  was fetched, while the variable \<^verbatim>\<open>transactions\<close> is rebound to the updated list; the
  accumulator is that list and \<^verbatim>\<open>changes\<close>.
\<close>

definition change_step ::
  "string \<Rightarrow> field_value \<Rightarrow> string list \<Rightarrow> transaction list \<times> changes \<Rightarrow> transaction
     \<Rightarrow> transaction list \<times> changes" where
  "change_step name v ids acc tran =
     (if name = ''cleared'' \<and> reconciled tran then acc
      else if id_t tran \<notin> set ids then acc
      else
        (let transaction0 = set_field name v tran;
             transaction = (if name = ''account'' \<and> VStr (account tran) \<noteq> v
                            then transaction0\<lparr>reconciled := False\<rparr> else transaction0);
             d = updateTransaction (fst acc) transaction
         in (applyChanges d (fst acc),
             \<lparr>added = concat_or (added (snd acc)) (diff_added d),
              deleted = concat_or (deleted (snd acc)) (diff_deleted d),
              updated = concat_or (updated (snd acc)) (diff_updated d)\<rparr>)))"

text \<open>
  \<^verbatim>\<open>onChange(name, value)\<close> of \<^verbatim>\<open>onBatchEdit\<close>, up to the \<^verbatim>\<open>changes\<close> it sends;
  \<open>fetched\<close> is \<^verbatim>\<open>ungroupTransactions(data)\<close> for the rows of \<open>ids\<close>, their split siblings
  and parents included.
\<close>

definition onChange :: "string \<Rightarrow> field_value \<Rightarrow> string list \<Rightarrow> transaction list \<Rightarrow> changes" where
  "onChange name v0 ids fetched =
     (let v = (if name = ''cleared'' then VBool (find (\<lambda>t. \<not> cleared t) fetched \<noteq> None) else v0)
      in snd (foldl (change_step name v ids)
                (fetched, \<lparr>added = None, deleted = Some [], updated = Some []\<rparr>) fetched))"

subsection \<open>Batch delete\<close>

text \<open>
  The body of \<^verbatim>\<open>transactions.forEach\<close> in \<^verbatim>\<open>onConfirmDelete\<close>. \<^verbatim>\<open>parentId && ...\<close> needs a
  parent id that is neither \<^verbatim>\<open>null\<close> nor the empty string. The diff's lists are arrays
  and so truthy: both keys of \<^verbatim>\<open>changes\<close> are extended by \<^verbatim>\<open>concat\<close>.
\<close>

definition delete_step ::
  "string list \<Rightarrow> transaction list \<times> changes \<Rightarrow> transaction \<Rightarrow> transaction list \<times> changes" where
  "delete_step ids acc tran =
     (let parentId = parent_id tran
      in if id_t tran \<notin> set ids \<or> (\<not> falsy parentId \<and> parentId \<in> Some ` set ids) then acc
         else
           (let d = deleteTransaction (fst acc) (id_t tran)
            in (applyChanges d (fst acc),
                (snd acc)\<lparr>deleted := map_option (\<lambda>l. l @ diff_deleted d) (deleted (snd acc)),
                          updated := map_option (\<lambda>l. l @ diff_updated d) (updated (snd acc))\<rparr>)))"

definition onConfirmDelete :: "string list \<Rightarrow> transaction list \<Rightarrow> changes" where
  "onConfirmDelete ids fetched =
     snd (foldl (delete_step ids)
            (fetched, \<lparr>added = None, deleted = Some [], updated = Some []\<rparr>) fetched)"

text \<open>
  The claim's condition for skipping a fetched row in the delete loop: it is not among
  the requested ids, or it is a child whose parent is (a parent id is a non-empty
  string).
\<close>

definition claimed_skip :: "string list \<Rightarrow> transaction \<Rightarrow> bool" where
  "claimed_skip ids t =
     (id_t t \<notin> set ids \<or> (\<exists>p\<in>set ids. p \<noteq> [] \<and> parent_id t = Some p))"

text \<open>What identifies a row within its split group: its id and its parent's.\<close>

definition row_key :: "transaction \<Rightarrow> string \<times> string option" where
  "row_key t = (id_t t, parent_id t)"

subsection \<open>Reconciliation\<close>

text \<open>A split group is named by its parent's id.\<close>

definition group_key :: "transaction \<Rightarrow> string" where
  "group_key t = (case parent_id t of None \<Rightarrow> id_t t | Some p \<Rightarrow> p)"



text \<open>
  Amounts are JavaScript numbers holding integers, and \<^verbatim>\<open>+\<close> and \<^verbatim>\<open>-\<close> on them are the
  operations of IEEE 754 doubles: the exact result rounded to 53 significant bits, ties
  to the even significand, and infinite from \<^verbatim>\<open>2^1024\<close> on. Up to \<^verbatim>\<open>2^53\<close> in magnitude
  every integer is a double and the result is exact.
\<close>

datatype jsnum = Num int | PosInfinity | NegInfinity

definition js_round :: "int \<Rightarrow> jsnum" where
  "js_round x =
     (let a = \<bar>x\<bar>
      in if a \<le> 2 ^ 53 then Num x
         else
           (let m = 2 ^ nat (bitlen a - 53);
                q = a div m;
                r = a mod m;
                q' = (if 2 * r < m then q else if 2 * r > m then q + 1
                      else if even q then q else q + 1);
                mag = q' * m
            in if mag \<ge> 2 ^ 1024 then (if x > 0 then PosInfinity else NegInfinity)
               else Num (if x > 0 then mag else - mag)))"

text \<open>\<^verbatim>\<open>cleared += trans.amount\<close> and \<^verbatim>\<open>reconcileAmount - cleared\<close>.\<close>

definition js_add :: "jsnum \<Rightarrow> int \<Rightarrow> jsnum" where
  "js_add c b = (case c of Num a \<Rightarrow> js_round (a + b) | PosInfinity \<Rightarrow> PosInfinity
                 | NegInfinity \<Rightarrow> NegInfinity)"




text \<open>The loop of \<^verbatim>\<open>onDoneReconciling\<close> that adds up \<^verbatim>\<open>cleared\<close>, starting from 0.\<close>

definition cleared_total :: "transaction list \<Rightarrow> jsnum" where
  "cleared_total transactions =
     foldl (\<lambda>c tran. if \<not> is_parent tran then js_add c (amount tran) else c) (Num 0) transactions"




subsection \<open>The confirmation gate\<close>

text \<open>
  Modelled from the spec: the query \<^verbatim>\<open>{id: {$oneof: ids}}\<close> with \<^verbatim>\<open>splits: 'grouped'\<close> runs
  in the data service, which is not among the sources. The spec has the fetch return
  the rows of the id set "expanded to include split siblings/parents": every stored row
  in the split group of a matching row.
\<close>

definition query_ids :: "string list \<Rightarrow> transaction list \<Rightarrow> transaction list" where
  "query_ids ids db =
     (let groups = group_key ` set (filter (\<lambda>t. id_t t \<in> set ids) db)
      in filter (\<lambda>t. group_key t \<in> groups) db)"

text \<open>
  Modelled from the spec: likewise the query \<^verbatim>\<open>{id: {$oneof: ids}, reconciled: true}\<close>,
  the split groups of the reconciled rows of the id set.
\<close>

definition query_ids_reconciled :: "string list \<Rightarrow> transaction list \<Rightarrow> transaction list" where
  "query_ids_reconciled ids db =
     (let groups = group_key ` set (filter (\<lambda>t. id_t t \<in> set ids \<and> reconciled t) db)
      in filter (\<lambda>t. group_key t \<in> groups) db)"

text \<open>
  What a batch handler does next. The \<^verbatim>\<open>onConfirm\<close> closure handed to the
  \<^verbatim>\<open>confirm-transaction-edit\<close> modal is one of three: push the \<^verbatim>\<open>edit-field\<close> modal,
  run \<^verbatim>\<open>onConfirmDelete(ids)\<close>, or run \<^verbatim>\<open>onConfirmDuplicate(ids)\<close>.
\<close>

datatype on_confirm =
    PushEditField string
  | ConfirmDelete "string list"
  | ConfirmDuplicate "string list"

datatype effect =
    PushConfirmModal string on_confirm
  | PushEditFieldModal string
  | Send changes

text \<open>
  \<^verbatim>\<open>onConfirmDuplicate\<close>. \<^verbatim>\<open>realizeTempTransactions\<close> (loot-core) gives the copies of a
  group fresh ids and is a parameter; the groups are the fetched parents, each followed
  by its children.
\<close>

definition onConfirmDuplicate ::
  "(transaction list \<Rightarrow> transaction list) \<Rightarrow> string list \<Rightarrow> transaction list \<Rightarrow> changes" where
  "onConfirmDuplicate realizeTempTransactions ids db =
     (let fetched = query_ids ids db;
          data = map (\<lambda>parent. parent # children_of (id_t parent) fetched)
                   (filter (\<lambda>t. parent_id t = None) fetched)
      in \<lparr>added = Some (foldl (\<lambda>newTransactions group. newTransactions @ realizeTempTransactions group) [] data),
          deleted = None, updated = None\<rparr>)"

text \<open>Running a closure once the user has confirmed.\<close>

definition run_confirm ::
  "(transaction list \<Rightarrow> transaction list) \<Rightarrow> on_confirm \<Rightarrow> transaction list \<Rightarrow> effect" where
  "run_confirm realizeTempTransactions k db =
     (case k of
        PushEditField name \<Rightarrow> PushEditFieldModal name
      | ConfirmDelete ids \<Rightarrow> Send (onConfirmDelete ids (query_ids ids db))
      | ConfirmDuplicate ids \<Rightarrow> Send (onConfirmDuplicate realizeTempTransactions ids db))"

text \<open>
  \<^verbatim>\<open>checkForReconciledTransactions(ids, confirmReason, onConfirm)\<close>: the modal when a
  targeted row is reconciled, else the closure at once.
\<close>

definition checkForReconciledTransactions ::
  "(transaction list \<Rightarrow> transaction list) \<Rightarrow> string list \<Rightarrow> string \<Rightarrow> on_confirm
     \<Rightarrow> transaction list \<Rightarrow> effect" where
  "checkForReconciledTransactions realizeTempTransactions ids confirmReason onConfirm db =
     (if length (query_ids_reconciled ids db) > 0 then PushConfirmModal confirmReason onConfirm
      else run_confirm realizeTempTransactions onConfirm db)"

definition onBatchDelete ::
  "(transaction list \<Rightarrow> transaction list) \<Rightarrow> string list \<Rightarrow> transaction list \<Rightarrow> effect" where
  "onBatchDelete realizeTempTransactions ids db =
     checkForReconciledTransactions realizeTempTransactions ids ''batchDeleteWithReconciled''
       (ConfirmDelete ids) db"

definition onBatchDuplicate ::
  "(transaction list \<Rightarrow> transaction list) \<Rightarrow> string list \<Rightarrow> transaction list \<Rightarrow> effect" where
  "onBatchDuplicate realizeTempTransactions ids db =
     checkForReconciledTransactions realizeTempTransactions ids ''batchDuplicateWithReconciled''
       (ConfirmDuplicate ids) db"

text \<open>
  \<^verbatim>\<open>onBatchEdit(name, ids)\<close>: the reconciled rows are looked up for the four guarded
  names only; \<^verbatim>\<open>'cleared'\<close> runs \<^verbatim>\<open>onChange('cleared', null)\<close> at once; every other name
  opens the \<^verbatim>\<open>edit-field\<close> modal, whose submit runs \<^verbatim>\<open>onChange\<close>.
\<close>

definition onBatchEdit :: "string \<Rightarrow> string list \<Rightarrow> transaction list \<Rightarrow> effect" where
  "onBatchEdit name ids db =
     (if (name = ''amount'' \<or> name = ''payee'' \<or> name = ''account'' \<or> name = ''date'')
         \<and> length (query_ids_reconciled ids db) > 0
      then PushConfirmModal ''batchEditWithReconciled'' (PushEditField name)
      else if name = ''cleared'' then Send (onChange ''cleared'' VNull ids (query_ids ids db))
      else PushEditFieldModal name)"

subsection \<open>Example rows\<close>

definition simple_row :: "string \<Rightarrow> int \<Rightarrow> bool \<Rightarrow> bool \<Rightarrow> string option \<Rightarrow> transaction" where
  "simple_row tid amt clr rec pid =
     \<lparr>id_t = tid, account = ''a1'', payee = None, category = None, notes_t = None, amount = amt,
      date = ''2024-01-01'', cleared = clr, reconciled = rec, is_parent = False, parent_id = pid\<rparr>"

subsection \<open>Properties of the batch operations\<close>

text \<open>Updates applied one after the other to rows with distinct ids act row by row.\<close>

lemma replace_all_find:
  "distinct (map id_t us) \<Longrightarrow>
   foldl (\<lambda>its u. map (\<lambda>t. if id_t t = id_t u then u else t) its) its us
     = map (\<lambda>t. case find (\<lambda>u. id_t u = id_t t) us of Some u \<Rightarrow> u | None \<Rightarrow> t) its"
proof (induction us arbitrary: its)
  case Nil
  then show ?case by simp
next
  case (Cons u rest)
  have "id_t u \<notin> id_t ` set rest"
    using Cons.prems by simp
  then have "\<forall>x\<in>set rest. id_t x \<noteq> id_t u"
    by (metis imageI)
  then have none: "find (\<lambda>x. id_t x = id_t u) rest = None"
    by (simp add: find_None_iff)
  have "foldl (\<lambda>its u. map (\<lambda>t. if id_t t = id_t u then u else t) its) its (u # rest)
      = map (\<lambda>t. case find (\<lambda>x. id_t x = id_t t) rest of Some x \<Rightarrow> x | None \<Rightarrow> t)
          (map (\<lambda>t. if id_t t = id_t u then u else t) its)"
    using Cons.IH [of "map (\<lambda>t. if id_t t = id_t u then u else t) its"] Cons.prems by simp
  also have "\<dots> = map (\<lambda>t. case find (\<lambda>x. id_t x = id_t t) (u # rest) of Some x \<Rightarrow> x | None \<Rightarrow> t) its"
    using none by (auto split: option.splits)
  finally show ?case .
qed

lemma find_map_filter:
  assumes "distinct (map id_t db)" "t \<in> set db" "\<And>x. id_t (f x) = id_t x"
  shows "find (\<lambda>u. id_t u = id_t t) (map f (filter Q db)) = (if Q t then Some (f t) else None)"
  using assms(1,2)
proof (induction db)
  case Nil
  then show ?case by simp
next
  case (Cons a db)
  show ?case
  proof (cases "t = a")
    case True
    have "id_t a \<notin> id_t ` set db"
      using Cons.prems(1) by simp
    then have "\<forall>x\<in>set db. id_t x \<noteq> id_t a"
      by (metis imageI)
    with True have "find (\<lambda>u. id_t u = id_t t) (map f (filter Q db)) = None"
      by (simp add: find_None_iff assms(3))
    with True show ?thesis by (simp add: assms(3))
  next
    case False
    then have "t \<in> set db" using Cons.prems by simp
    then have "id_t a \<noteq> id_t t" using Cons.prems(1) by auto
    with Cons \<open>t \<in> set db\<close> show ?thesis by (simp add: assms(3))
  qed
qed

lemma updates_by_id:
  assumes "distinct (map id_t db)" "\<And>x. id_t (f x) = id_t x"
  shows "foldl (\<lambda>its u. map (\<lambda>t. if id_t t = id_t u then u else t) its) db (map f (filter Q db))
     = map (\<lambda>t. if Q t then f t else t) db"
proof -
  have "map id_t (map f (filter Q db)) = map id_t (filter Q db)"
    by (simp add: assms(2))
  moreover have "distinct (map id_t (filter Q db))"
    using assms(1) by (rule distinct_map_filter)
  ultimately have d: "distinct (map id_t (map f (filter Q db)))"
    by (simp only:)
  show ?thesis
    unfolding replace_all_find [OF d]
    by (rule map_cong) (simp_all add: find_map_filter [OF assms(1) _ assms(2)])
qed

lemma ids_applyChanges_update:
  "id_t ` set (applyChanges (updateTransaction txs t) txs) = id_t ` set txs"
proof -
  have "map id_t (map (\<lambda>x. if id_t x = id_t t then t else x) txs) = map id_t txs"
    by (induction txs) auto
  then have "id_t ` set (map (\<lambda>x. if id_t x = id_t t then t else x) txs) = id_t ` set txs"
    by (metis set_map)
  then show ?thesis
    by (simp add: applyChanges_def updateTransaction_def empty_diff_def)
qed

lemma cleared_loop:
  assumes "id_t ` set items \<subseteq> id_t ` set txs"
  shows "snd (foldl (change_step ''cleared'' (VBool b) ids) (txs, ch) items)
     = (let changed = map (\<lambda>t. t\<lparr>cleared := b\<rparr>) (filter (\<lambda>t. \<not> reconciled t \<and> id_t t \<in> set ids) items)
        in if filter (\<lambda>t. \<not> reconciled t \<and> id_t t \<in> set ids) items = [] then ch
           else \<lparr>added = concat_or (added ch) [], deleted = concat_or (deleted ch) [],
                 updated = concat_or (updated ch) changed\<rparr>)"
  using assms
proof (induction items arbitrary: txs ch)
  case Nil
  then show ?case by simp
next
  case (Cons a items)
  show ?case
  proof (cases "\<not> reconciled a \<and> id_t a \<in> set ids")
    case False
    then have "change_step ''cleared'' (VBool b) ids (txs, ch) a = (txs, ch)"
      by (auto simp: change_step_def)
    with False Cons show ?thesis by auto
  next
    case True
    let ?t = "a\<lparr>cleared := b\<rparr>"
    have found: "id_t ?t \<in> id_t ` set txs" using Cons.prems by auto
    then have d: "updateTransaction txs ?t = empty_diff\<lparr>diff_updated := [?t]\<rparr>"
      by (simp add: updateTransaction_def)
    have step: "change_step ''cleared'' (VBool b) ids (txs, ch) a
        = (applyChanges (updateTransaction txs ?t) txs,
           \<lparr>added = concat_or (added ch) [], deleted = concat_or (deleted ch) [],
            updated = concat_or (updated ch) [?t]\<rparr>)"
      using True by (simp add: change_step_def set_field_def Let_def d empty_diff_def)
    have sub: "id_t ` set items \<subseteq> id_t ` set (applyChanges (updateTransaction txs ?t) txs)"
      using Cons.prems by (simp add: ids_applyChanges_update)
    show ?thesis
      using True Cons.IH [OF sub] step
      by (auto simp: Let_def concat_or_def split: option.splits)
  qed
qed

lemma onChange_cleared:
  "onChange ''cleared'' v0 ids fetched =
     (let b = (\<exists>t\<in>set fetched. \<not> cleared t);
          rows = filter (\<lambda>t. \<not> reconciled t \<and> id_t t \<in> set ids) fetched
      in if rows = [] then \<lparr>added = None, deleted = Some [], updated = Some []\<rparr>
         else \<lparr>added = Some [], deleted = Some [],
               updated = Some (map (\<lambda>t. t\<lparr>cleared := b\<rparr>) rows)\<rparr>)"
proof -
  have b: "(find (\<lambda>t. \<not> cleared t) fetched \<noteq> None) = (\<exists>t\<in>set fetched. \<not> cleared t)"
    by (auto simp add: find_None_iff)
  show ?thesis
    unfolding onChange_def b
    by (simp add: Let_def cleared_loop [of fetched fetched] concat_or_def)
qed

lemma batch_update_cleared:
  assumes "distinct (map id_t fetched)"
  shows "batch_update (onChange ''cleared'' v0 ids fetched) fetched
     = map (\<lambda>t. if id_t t \<in> set ids \<and> \<not> reconciled t
                 then t\<lparr>cleared := (\<exists>x\<in>set fetched. \<not> cleared x)\<rparr> else t) fetched"
proof -
  let ?Q = "\<lambda>t. \<not> reconciled t \<and> id_t t \<in> set ids"
  let ?f = "\<lambda>t. t\<lparr>cleared := (\<exists>x\<in>set fetched. \<not> cleared x)\<rparr>"
  have "batch_update (onChange ''cleared'' v0 ids fetched) fetched
      = foldl (\<lambda>its u. map (\<lambda>t. if id_t t = id_t u then u else t) its) fetched
          (map ?f (filter ?Q fetched))"
    by (simp add: onChange_cleared batch_update_def applyChanges_def Let_def)
  also have "\<dots> = map (\<lambda>t. if ?Q t then ?f t else t) fetched"
    by (rule updates_by_id [OF assms]) simp
  also have "\<dots> = map (\<lambda>t. if id_t t \<in> set ids \<and> \<not> reconciled t then ?f t else t) fetched"
    by (rule map_cong) auto
  finally show ?thesis .
qed

text \<open>
  Claim C3, as the code has it. The cleared toggle of \<^verbatim>\<open>onBatchEdit\<close> on a fetched set
  with distinct ids decides its value on the whole fetched set, the requested rows
  together with the split siblings and parents the query brings along: when some
  fetched row is uncleared, every requested row that is not reconciled becomes cleared;
  when every fetched row is cleared, every requested row that is not reconciled becomes
  uncleared. Reconciled rows and rows outside the requested ids stay as they were, and
  nothing is deleted.
\<close>

theorem cleared_toggle:
  assumes "distinct (map id_t fetched)"
  shows "((\<exists>t\<in>set fetched. \<not> cleared t) \<longrightarrow>
            batch_update (onChange ''cleared'' v0 ids fetched) fetched
              = map (\<lambda>t. if id_t t \<in> set ids \<and> \<not> reconciled t then t\<lparr>cleared := True\<rparr> else t) fetched)
       \<and> ((\<forall>t\<in>set fetched. cleared t) \<longrightarrow>
            batch_update (onChange ''cleared'' v0 ids fetched) fetched
              = map (\<lambda>t. if id_t t \<in> set ids \<and> \<not> reconciled t then t\<lparr>cleared := False\<rparr> else t) fetched)
       \<and> batch_update (onChange ''cleared'' v0 ids fetched) fetched
              = map (\<lambda>t. if id_t t \<in> set ids \<and> \<not> reconciled t
                          then t\<lparr>cleared := (\<exists>x\<in>set fetched. \<not> cleared x)\<rparr> else t) fetched
       \<and> deleted (onChange ''cleared'' v0 ids fetched) = Some []
       \<and> updated (onChange ''cleared'' v0 ids fetched)
              = Some (map (\<lambda>t. t\<lparr>cleared := (\<exists>x\<in>set fetched. \<not> cleared x)\<rparr>)
                   (filter (\<lambda>t. \<not> reconciled t \<and> id_t t \<in> set ids) fetched))"
proof -
  have 1: "(\<exists>t\<in>set fetched. \<not> cleared t) \<Longrightarrow> (\<exists>x\<in>set fetched. \<not> cleared x) = True"
    by simp
  have 2: "(\<forall>t\<in>set fetched. cleared t) \<Longrightarrow> (\<exists>x\<in>set fetched. \<not> cleared x) = False"
    by auto
  have 3: "deleted (onChange ''cleared'' v0 ids fetched) = Some []"
    and 4: "updated (onChange ''cleared'' v0 ids fetched)
              = Some (map (\<lambda>t. t\<lparr>cleared := (\<exists>x\<in>set fetched. \<not> cleared x)\<rparr>)
                   (filter (\<lambda>t. \<not> reconciled t \<and> id_t t \<in> set ids) fetched))"
    by (simp_all add: onChange_cleared Let_def)
  show ?thesis
    using batch_update_cleared [OF assms, of v0 ids] 1 2 3 4 by simp
qed

text \<open>
  Requested \<open>x\<close> (uncleared) and \<open>r\<close> (reconciled), with \<open>y\<close> fetched but not requested:
  only \<open>x\<close> becomes cleared. Requested \<open>x\<close> and \<open>r\<close>, all cleared: only \<open>x\<close> becomes
  uncleared.
\<close>

theorem cleared_toggle_witness:
  "batch_update (onChange ''cleared'' VNull [''x'', ''r'']
      [simple_row ''x'' 20 False False None, simple_row ''r'' 5 True True None,
       simple_row ''y'' 7 False False None])
      [simple_row ''x'' 20 False False None, simple_row ''r'' 5 True True None,
       simple_row ''y'' 7 False False None]
    = [simple_row ''x'' 20 True False None, simple_row ''r'' 5 True True None,
       simple_row ''y'' 7 False False None]
   \<and> batch_update (onChange ''cleared'' VNull [''x'', ''r'']
      [simple_row ''x'' 20 True False None, simple_row ''r'' 5 True True None])
      [simple_row ''x'' 20 True False None, simple_row ''r'' 5 True True None]
    = [simple_row ''x'' 20 False False None, simple_row ''r'' 5 True True None]"
  using cleared_toggle [of "[simple_row ''x'' 20 False False None, simple_row ''r'' 5 True True None,
       simple_row ''y'' 7 False False None]" VNull "[''x'', ''r'']"]
    cleared_toggle [of "[simple_row ''x'' 20 True False None, simple_row ''r'' 5 True True None]"
      VNull "[''x'', ''r'']"]
  by (simp add: simple_row_def)

text \<open>
  The toggle does not look at the requested rows alone. In a split group with parent
  \<open>p\<close> and children \<open>x\<close> (cleared) and \<open>y\<close> (uncleared), a toggle requested for \<open>x\<close>
  fetches the whole group; every requested row is cleared, yet \<open>y\<close> makes the value
  "cleared" and \<open>x\<close> is sent as cleared again instead of becoming uncleared.
\<close>

theorem cleared_toggle_sibling_counterexample:
  "query_ids [''x'']
      [(simple_row ''p'' 27 True False None)\<lparr>is_parent := True\<rparr>,
       simple_row ''x'' 20 True False (Some ''p''),
       simple_row ''y'' 7 False False (Some ''p'')]
    = [(simple_row ''p'' 27 True False None)\<lparr>is_parent := True\<rparr>,
       simple_row ''x'' 20 True False (Some ''p''),
       simple_row ''y'' 7 False False (Some ''p'')]
   \<and> map cleared (filter (\<lambda>t. id_t t \<in> set [''x''])
      [(simple_row ''p'' 27 True False None)\<lparr>is_parent := True\<rparr>,
       simple_row ''x'' 20 True False (Some ''p''),
       simple_row ''y'' 7 False False (Some ''p'')]) = [True]
   \<and> onBatchEdit ''cleared'' [''x'']
      [(simple_row ''p'' 27 True False None)\<lparr>is_parent := True\<rparr>,
       simple_row ''x'' 20 True False (Some ''p''),
       simple_row ''y'' 7 False False (Some ''p'')]
    = Send \<lparr>added = Some [], deleted = Some [],
            updated = Some [simple_row ''x'' 20 True False (Some ''p'')]\<rparr>
   \<and> batch_update (onChange ''cleared'' VNull [''x'']
        [(simple_row ''p'' 27 True False None)\<lparr>is_parent := True\<rparr>,
         simple_row ''x'' 20 True False (Some ''p''),
         simple_row ''y'' 7 False False (Some ''p'')])
      [(simple_row ''p'' 27 True False None)\<lparr>is_parent := True\<rparr>,
       simple_row ''x'' 20 True False (Some ''p''),
       simple_row ''y'' 7 False False (Some ''p'')]
    = [(simple_row ''p'' 27 True False None)\<lparr>is_parent := True\<rparr>,
       simple_row ''x'' 20 True False (Some ''p''),
       simple_row ''y'' 7 False False (Some ''p'')]"
proof -
  let ?rows = "[(simple_row ''p'' 27 True False None)\<lparr>is_parent := True\<rparr>,
       simple_row ''x'' 20 True False (Some ''p''),
       simple_row ''y'' 7 False False (Some ''p'')]"
  have q: "query_ids [''x''] ?rows = ?rows"
    by (simp add: query_ids_def group_key_def simple_row_def)
  have d: "distinct (map id_t ?rows)"
    by (simp add: simple_row_def)
  have c: "onChange ''cleared'' VNull [''x''] ?rows
      = \<lparr>added = Some [], deleted = Some [],
         updated = Some [simple_row ''x'' 20 True False (Some ''p'')]\<rparr>"
    by (simp add: onChange_cleared simple_row_def)
  have e: "onBatchEdit ''cleared'' [''x''] ?rows
      = Send (onChange ''cleared'' VNull [''x''] ?rows)"
    unfolding onBatchEdit_def q by simp
  have b: "batch_update (onChange ''cleared'' VNull [''x''] ?rows) ?rows = ?rows"
    unfolding batch_update_cleared [OF d] by (simp add: simple_row_def)
  have m: "map cleared (filter (\<lambda>t. id_t t \<in> set [''x'']) ?rows) = [True]"
    by (simp add: simple_row_def)
  show ?thesis
    unfolding e c using q m b by (intro conjI) (simp_all only: c)
qed

subsection \<open>Properties of reconciliation\<close>

text \<open>Up to \<^verbatim>\<open>2^53\<close> in magnitude nothing is rounded.\<close>

lemma js_round_exact: "\<bar>x\<bar> \<le> 2 ^ 53 \<Longrightarrow> js_round x = Num x"
  by (simp add: js_round_def)





text \<open>\<^verbatim>\<open>2^53 + 1\<close> is halfway between two doubles and goes to the even one.\<close>

lemma js_round_tie: "js_round (2 ^ 53 + 1) = Num (2 ^ 53)"
proof -
  have b: "bitlen \<bar>2 ^ 53 + 1\<bar> = 54"
    using bitlen_twopow_add_eq [of 1 53] by simp
  show ?thesis
    unfolding js_round_def Let_def b by simp
qed

lemma rounding_example:
  "cleared_total [simple_row ''A'' (2 ^ 53) True False None, simple_row ''B'' 1 True False None,
      simple_row ''C'' (- (2 ^ 53)) True False None] = Num 0"
  using js_round_tie
  by (simp add: cleared_total_def js_add_def js_round_exact simple_row_def)










text \<open>
  Nor is the sum exact beyond \<^verbatim>\<open>2^53\<close>: the amounts \<^verbatim>\<open>2^53\<close>, 1 and \<^verbatim>\<open>-2^53\<close> add up
  to 1, and the running sum of the code is 0.
\<close>

lemma rounding_loses_a_unit:
  "sum_list (map amount
      [simple_row ''A'' (2 ^ 53) True False None, simple_row ''B'' 1 True False None,
       simple_row ''C'' (- (2 ^ 53)) True False None]) = 1
   \<and> cleared_total
      [simple_row ''A'' (2 ^ 53) True False None, simple_row ''B'' 1 True False None,
       simple_row ''C'' (- (2 ^ 53)) True False None] = Num 0"
  using rounding_example by (simp add: simple_row_def)

subsection \<open>Properties of batch delete and of the confirmation gate\<close>

lemma deleted_rows_of_delete:
  assumes "d \<in> set (diff_deleted (deleteTransaction txs i))"
  shows "d \<in> set txs \<and> (id_t d = i \<or> parent_id d = Some i)"
proof (cases "find (\<lambda>t. id_t t = i) txs")
  case None
  with assms show ?thesis by (simp add: deleteTransaction_def empty_diff_def)
next
  case (Some tr)
  then have tr: "tr \<in> set txs" "id_t tr = i"
    by (auto simp: find_Some_iff)
  show ?thesis
  proof (cases "parent_id tr")
    case None
    with Some assms tr show ?thesis
      by (auto simp: deleteTransaction_def empty_diff_def children_of_def)
  next
    case (Some pid)
    with \<open>find (\<lambda>t. id_t t = i) txs = Some tr\<close> assms tr show ?thesis
      by (auto simp: deleteTransaction_def empty_diff_def)
  qed
qed

lemma keys_applyChanges_delete:
  assumes "distinct (map id_t txs)"
  shows "map row_key (applyChanges (deleteTransaction txs i) txs)
     = filter (\<lambda>k. fst k \<notin> id_t ` set (diff_deleted (deleteTransaction txs i))) (map row_key txs)"
proof (cases "find (\<lambda>t. id_t t = i) txs")
  case None
  then show ?thesis
    by (simp add: deleteTransaction_def empty_diff_def applyChanges_def)
next
  case (Some tr)
  show ?thesis
  proof (cases "parent_id tr")
    case None
    with Some show ?thesis
      by (simp add: deleteTransaction_def empty_diff_def applyChanges_def filter_map comp_def row_key_def)
  next
    case (Some pid)
    let ?upd = "\<lambda>parent. parent\<lparr>amount :=
        sum_list (map amount (filter (\<lambda>t. id_t t \<noteq> i) (children_of pid txs)))\<rparr>"
    have u: "foldl (\<lambda>its u. map (\<lambda>t. if id_t t = id_t u then u else t) its) txs
          (map ?upd (filter (\<lambda>t. id_t t = pid) txs))
        = map (\<lambda>t. if id_t t = pid then ?upd t else t) txs"
      by (rule updates_by_id [OF assms]) simp
    have k: "map row_key (map (\<lambda>t. if id_t t = pid then ?upd t else t) txs) = map row_key txs"
      by (simp add: row_key_def)
    have "map row_key (applyChanges (deleteTransaction txs i) txs)
        = map row_key (filter (\<lambda>t. id_t t \<noteq> id_t tr) (map (\<lambda>t. if id_t t = pid then ?upd t else t) txs))"
      using Some \<open>find (\<lambda>t. id_t t = i) txs = Some tr\<close>
      by (simp add: deleteTransaction_def empty_diff_def applyChanges_def u)
    also have "\<dots> = filter (\<lambda>k. fst k \<noteq> id_t tr) (map row_key (map (\<lambda>t. if id_t t = pid then ?upd t else t) txs))"
      by (simp add: filter_map comp_def row_key_def)
    also have "\<dots> = filter (\<lambda>k. fst k \<noteq> id_t tr) (map row_key txs)"
      by (simp only: k)
    finally show ?thesis
      using Some \<open>find (\<lambda>t. id_t t = i) txs = Some tr\<close>
      by (simp add: deleteTransaction_def empty_diff_def)
  qed
qed

lemma same_id_same_row:
  "distinct (map id_t xs) \<Longrightarrow> x \<in> set xs \<Longrightarrow> y \<in> set xs \<Longrightarrow> id_t x = id_t y \<Longrightarrow> x = y"
  by (auto simp: distinct_map dest: inj_onD)

lemma delete_step_skip:
  "claimed_skip ids tran \<Longrightarrow> delete_step ids acc tran = acc"
  by (auto simp: claimed_skip_def delete_step_def falsy_def Let_def)

lemma delete_step_run:
  "\<not> claimed_skip ids tran \<Longrightarrow>
   delete_step ids (txs, ch) tran =
     (applyChanges (deleteTransaction txs (id_t tran)) txs,
      ch\<lparr>deleted := map_option (\<lambda>l. l @ diff_deleted (deleteTransaction txs (id_t tran))) (deleted ch),
         updated := map_option (\<lambda>l. l @ diff_updated (deleteTransaction txs (id_t tran))) (updated ch)\<rparr>)"
  by (auto simp: claimed_skip_def delete_step_def falsy_def Let_def)

lemma delete_loop_filter:
  "foldl (delete_step ids) acc items
     = foldl (delete_step ids) acc (filter (\<lambda>t. \<not> claimed_skip ids t) items)"
  by (induction items arbitrary: acc) (simp_all add: delete_step_skip)

lemma delete_loop_grows:
  "deleted ch = Some dl \<Longrightarrow>
   \<exists>more. deleted (snd (foldl (delete_step ids) (txs, ch) items)) = Some (dl @ more)"
proof (induction items arbitrary: txs ch dl)
  case Nil
  then show ?case by simp
next
  case (Cons t rest)
  show ?case
  proof (cases "claimed_skip ids t")
    case True
    with Cons show ?thesis by (simp add: delete_step_skip)
  next
    case False
    let ?d = "deleteTransaction txs (id_t t)"
    let ?ch' = "ch\<lparr>deleted := map_option (\<lambda>l. l @ diff_deleted ?d) (deleted ch),
         updated := map_option (\<lambda>l. l @ diff_updated ?d) (updated ch)\<rparr>"
    have "deleted ?ch' = Some (dl @ diff_deleted ?d)"
      using Cons.prems by simp
    from Cons.IH [OF this, of "applyChanges ?d txs"] obtain more where
      "deleted (snd (foldl (delete_step ids) (applyChanges ?d txs, ?ch') rest))
         = Some ((dl @ diff_deleted ?d) @ more)" ..
    then show ?thesis
      using False by (simp add: delete_step_run)
  qed
qed

lemma cascade_loop:
  assumes F: "distinct (map id_t F)"
    and p: "p \<in> set F" "parent_id p = None" "id_t p \<in> set ids"
    and c: "c \<in> set F" "parent_id c = Some (id_t p)"
  shows "distinct (map id_t txs) \<Longrightarrow> set (map row_key txs) \<subseteq> set (map row_key F) \<Longrightarrow>
     set items \<subseteq> set F \<Longrightarrow> p \<in> set items \<Longrightarrow> row_key p \<in> set (map row_key txs) \<Longrightarrow>
     deleted ch = Some dl \<Longrightarrow> row_key c \<in> set (map row_key txs) \<or> id_t c \<in> id_t ` set dl \<Longrightarrow>
     \<exists>dl'. deleted (snd (foldl (delete_step ids) (txs, ch) items)) = Some dl' \<and> id_t c \<in> id_t ` set dl'"
proof (induction items arbitrary: txs ch dl)
  case Nil
  then show ?case by simp
next
  case (Cons t rest)
  have np: "\<not> claimed_skip ids p"
    using p by (simp add: claimed_skip_def)
  show ?case
  proof (cases "claimed_skip ids t")
    case True
    with np have "t \<noteq> p" by auto
    with Cons.prems have "p \<in> set rest" by simp
    with Cons.IH [of txs ch dl] Cons.prems True show ?thesis
      by (simp add: delete_step_skip)
  next
    case False
    let ?d = "deleteTransaction txs (id_t t)"
    let ?D = "id_t ` set (diff_deleted ?d)"
    let ?txs' = "applyChanges ?d txs"
    let ?ch' = "ch\<lparr>deleted := map_option (\<lambda>l. l @ diff_deleted ?d) (deleted ch),
         updated := map_option (\<lambda>l. l @ diff_updated ?d) (updated ch)\<rparr>"
    have step: "delete_step ids (txs, ch) t = (?txs', ?ch')"
      using False by (rule delete_step_run)
    have del': "deleted ?ch' = Some (dl @ diff_deleted ?d)"
      using Cons.prems by simp
    have keys': "map row_key ?txs' = filter (\<lambda>k. fst k \<notin> ?D) (map row_key txs)"
      using Cons.prems(1) by (rule keys_applyChanges_delete)
    have ids: "map id_t xs = map fst (map row_key xs)" for xs
      by (simp add: row_key_def)
    have dist': "distinct (map id_t ?txs')"
      unfolding ids [of ?txs'] keys'
      using Cons.prems(1) unfolding ids [of txs] by (rule distinct_map_filter)
    have sub': "set (map row_key ?txs') \<subseteq> set (map row_key F)"
      unfolding keys' using Cons.prems(2) by auto
    have c': "row_key c \<in> set (map row_key ?txs') \<or> id_t c \<in> id_t ` set (dl @ diff_deleted ?d)"
    proof (cases "id_t c \<in> ?D")
      case True
      then show ?thesis by auto
    next
      case False
      with Cons.prems(7) show ?thesis
        unfolding keys' by (auto simp: row_key_def)
    qed
    show ?thesis
    proof (cases "t = p")
      case True
      from Cons.prems(5) obtain p' where p': "p' \<in> set txs" "row_key p' = row_key p"
        by auto
      then have "\<exists>x\<in>set txs. id_t x = id_t p"
        by (auto simp: row_key_def)
      then obtain tr where tr: "find (\<lambda>x. id_t x = id_t p) txs = Some tr"
        by (cases "find (\<lambda>x. id_t x = id_t p) txs") (auto simp: find_None_iff)
      then have "tr \<in> set txs" "id_t tr = id_t p"
        by (auto simp: find_Some_iff)
      with p' Cons.prems(1) have "tr = p'"
        by (auto simp: row_key_def intro: same_id_same_row)
      with p' p(2) have "parent_id tr = None"
        by (simp add: row_key_def)
      with tr True have dd: "diff_deleted ?d = tr # children_of (id_t p) txs"
        by (simp add: deleteTransaction_def empty_diff_def)
      have "id_t c \<in> id_t ` set (dl @ diff_deleted ?d)"
      proof (cases "row_key c \<in> set (map row_key txs)")
        case True
        then obtain c0 where "c0 \<in> set txs" "row_key c0 = row_key c"
          by auto
        with c(2) have "c0 \<in> set (children_of (id_t p) txs)" "id_t c0 = id_t c"
          by (auto simp: children_of_def row_key_def)
        then show ?thesis
          unfolding dd by (metis Un_iff imageI list.set_intros(2) set_append)
      next
        case False
        with Cons.prems(7) show ?thesis by auto
      qed
      moreover from delete_loop_grows [OF del', of ids ?txs' rest] obtain more where
        "deleted (snd (foldl (delete_step ids) (?txs', ?ch') rest)) = Some ((dl @ diff_deleted ?d) @ more)" ..
      ultimately show ?thesis
        using step by auto
    next
      case False
      with Cons.prems have rest: "p \<in> set rest" "t \<in> set F" "set rest \<subseteq> set F"
        by auto
      have "id_t p \<notin> ?D"
      proof
        assume "id_t p \<in> ?D"
        then obtain d0 where d0: "d0 \<in> set (diff_deleted ?d)" "id_t d0 = id_t p"
          by auto
        then have in_txs: "d0 \<in> set txs" and how: "id_t d0 = id_t t \<or> parent_id d0 = Some (id_t t)"
          using deleted_rows_of_delete [of d0 txs "id_t t"] by auto
        from in_txs Cons.prems(2) obtain x where x: "x \<in> set F" "row_key x = row_key d0"
          by force
        with d0 have "id_t x = id_t p"
          by (simp add: row_key_def)
        with x p(1) F have "x = p"
          by (auto intro: same_id_same_row)
        with x p(2) have "parent_id d0 = None"
          by (simp add: row_key_def)
        with how d0 have "id_t t = id_t p"
          by simp
        with rest(2) p(1) F have "t = p"
          by (auto intro: same_id_same_row)
        with False show False ..
      qed
      with Cons.prems(5) have p'': "row_key p \<in> set (map row_key ?txs')"
        unfolding keys' by (auto simp: row_key_def)
      from Cons.IH [OF dist' sub' rest(3) rest(1) p'' del' c'] show ?thesis
        using step by simp
    qed
  qed
qed

lemma deleted_only_requested:
  assumes "deleted ch = Some dl"
    and "\<forall>d\<in>set dl. id_t d \<in> set ids \<or> (\<exists>q\<in>set ids. parent_id d = Some q)"
  shows "\<exists>dl'. deleted (snd (foldl (delete_step ids) (txs, ch) items)) = Some dl'
      \<and> (\<forall>d\<in>set dl'. id_t d \<in> set ids \<or> (\<exists>q\<in>set ids. parent_id d = Some q))"
  using assms
proof (induction items arbitrary: txs ch dl)
  case Nil
  then show ?case by simp
next
  case (Cons t rest)
  show ?case
  proof (cases "claimed_skip ids t")
    case True
    with Cons show ?thesis by (simp add: delete_step_skip)
  next
    case False
    then have t: "id_t t \<in> set ids"
      by (simp add: claimed_skip_def)
    let ?d = "deleteTransaction txs (id_t t)"
    let ?ch' = "ch\<lparr>deleted := map_option (\<lambda>l. l @ diff_deleted ?d) (deleted ch),
         updated := map_option (\<lambda>l. l @ diff_updated ?d) (updated ch)\<rparr>"
    have 1: "deleted ?ch' = Some (dl @ diff_deleted ?d)"
      using Cons.prems by simp
    have "id_t d \<in> set ids \<or> (\<exists>q\<in>set ids. parent_id d = Some q)"
      if "d \<in> set (diff_deleted ?d)" for d
      using deleted_rows_of_delete [OF that] t by auto
    with Cons.prems(2)
    have 2: "\<forall>d\<in>set (dl @ diff_deleted ?d). id_t d \<in> set ids \<or> (\<exists>q\<in>set ids. parent_id d = Some q)"
      by auto
    from Cons.IH [OF 1 2, of "applyChanges ?d txs"] show ?thesis
      using False by (simp add: delete_step_run)
  qed
qed

text \<open>
  Claim C4. In \<^verbatim>\<open>onConfirmDelete\<close> a fetched row that is not among the requested ids, or
  is a child of a requested parent, leaves the running list and \<^verbatim>\<open>changes\<close> as they are:
  no \<^verbatim>\<open>deleteTransaction\<close> is issued for it, and the batch is the one computed from the
  remaining rows alone. Every row in the batch's \<^verbatim>\<open>deleted\<close> list is requested or the
  child of a requested row, and with distinct ids the children of a requested parent
  are in that list through the parent's delete.
\<close>

theorem batch_delete_skips:
  assumes "distinct (map id_t fetched)"
  shows "(claimed_skip ids tran \<longrightarrow> delete_step ids acc tran = acc)
     \<and> onConfirmDelete ids fetched
         = snd (foldl (delete_step ids)
             (fetched, \<lparr>added = None, deleted = Some [], updated = Some []\<rparr>)
             (filter (\<lambda>t. \<not> claimed_skip ids t) fetched))
     \<and> (\<exists>dl. deleted (onConfirmDelete ids fetched) = Some dl
           \<and> (\<forall>d\<in>set dl. id_t d \<in> set ids \<or> (\<exists>q\<in>set ids. parent_id d = Some q))
           \<and> (p \<in> set fetched \<and> parent_id p = None \<and> id_t p \<in> set ids
                \<and> c \<in> set fetched \<and> parent_id c = Some (id_t p) \<longrightarrow> id_t c \<in> id_t ` set dl))"
proof -
  let ?c0 = "\<lparr>added = None, deleted = Some [], updated = Some []\<rparr>"
  have 1: "claimed_skip ids tran \<longrightarrow> delete_step ids acc tran = acc"
    by (simp add: delete_step_skip)
  have 2: "onConfirmDelete ids fetched
         = snd (foldl (delete_step ids) (fetched, ?c0) (filter (\<lambda>t. \<not> claimed_skip ids t) fetched))"
    unfolding onConfirmDelete_def by (subst delete_loop_filter) simp
  from deleted_only_requested [of ?c0 "[]" ids fetched fetched]
  obtain dl where dl: "deleted (onConfirmDelete ids fetched) = Some dl"
      "\<forall>d\<in>set dl. id_t d \<in> set ids \<or> (\<exists>q\<in>set ids. parent_id d = Some q)"
    by (auto simp: onConfirmDelete_def)
  have 3: "id_t c \<in> id_t ` set dl"
    if "p \<in> set fetched" "parent_id p = None" "id_t p \<in> set ids"
      "c \<in> set fetched" "parent_id c = Some (id_t p)"
  proof -
    have k: "row_key p \<in> set (map row_key fetched)"
      and "row_key c \<in> set (map row_key fetched)"
      using that by auto
    then have k': "row_key c \<in> set (map row_key fetched) \<or> id_t c \<in> id_t ` set []"
      by simp
    have d0: "deleted ?c0 = Some []"
      by simp
    from cascade_loop [OF assms that assms subset_refl subset_refl that(1) k d0 k']
    show ?thesis
      using dl(1) by (auto simp: onConfirmDelete_def)
  qed
  have 4: "\<exists>dl. deleted (onConfirmDelete ids fetched) = Some dl
           \<and> (\<forall>d\<in>set dl. id_t d \<in> set ids \<or> (\<exists>q\<in>set ids. parent_id d = Some q))
           \<and> (p \<in> set fetched \<and> parent_id p = None \<and> id_t p \<in> set ids
                \<and> c \<in> set fetched \<and> parent_id c = Some (id_t p) \<longrightarrow> id_t c \<in> id_t ` set dl)"
    using dl 3 by (intro exI [of _ dl]) simp
  from 1 2 4 show ?thesis by (intro conjI)
qed

text \<open>
  Parent \<open>p\<close> with children \<open>c1\<close> and \<open>c2\<close>, and \<open>x\<close>; requested are \<open>p\<close> and \<open>c1\<close>. The
  step for \<open>c1\<close> changes nothing, and \<open>c1\<close> is among the deleted rows all the same.
\<close>

theorem batch_delete_skips_witness:
  "delete_step [''p'', ''c1'']
      ([simple_row ''p'' (-50) True False None, simple_row ''c1'' (-20) True False (Some ''p''),
        simple_row ''c2'' (-30) True False (Some ''p''), simple_row ''x'' 20 False False None],
       \<lparr>added = None, deleted = Some [], updated = Some []\<rparr>)
      (simple_row ''c1'' (-20) True False (Some ''p''))
    = ([simple_row ''p'' (-50) True False None, simple_row ''c1'' (-20) True False (Some ''p''),
        simple_row ''c2'' (-30) True False (Some ''p''), simple_row ''x'' 20 False False None],
       \<lparr>added = None, deleted = Some [], updated = Some []\<rparr>)
   \<and> (\<exists>dl. deleted (onConfirmDelete [''p'', ''c1'']
        [simple_row ''p'' (-50) True False None, simple_row ''c1'' (-20) True False (Some ''p''),
         simple_row ''c2'' (-30) True False (Some ''p''), simple_row ''x'' 20 False False None]) = Some dl
       \<and> ''c1'' \<in> id_t ` set dl)"
proof -
  let ?p = "simple_row ''p'' (-50) True False None"
  let ?c = "simple_row ''c1'' (-20) True False (Some ''p'')"
  let ?rows = "[?p, ?c, simple_row ''c2'' (-30) True False (Some ''p''), simple_row ''x'' 20 False False None]"
  let ?ids = "[''p'', ''c1'']"
  have d: "distinct (map id_t ?rows)"
    by (simp add: simple_row_def)
  have s: "claimed_skip ?ids ?c"
    by (simp add: claimed_skip_def simple_row_def)
  have h: "?p \<in> set ?rows \<and> parent_id ?p = None \<and> id_t ?p \<in> set ?ids
      \<and> ?c \<in> set ?rows \<and> parent_id ?c = Some (id_t ?p)"
    by (simp add: simple_row_def)
  have i: "id_t ?c = ''c1''"
    by (simp add: simple_row_def)
  from batch_delete_skips [OF d, of ?ids ?c "(?rows, \<lparr>added = None, deleted = Some [], updated = Some []\<rparr>)" ?p ?c]
    s h show ?thesis
    unfolding i by blast
qed

lemma query_ids_reconciled_empty:
  "(query_ids_reconciled ids db = []) = (\<not> (\<exists>t\<in>set db. id_t t \<in> set ids \<and> reconciled t))"
proof -
  have "(filter (\<lambda>t. group_key t \<in> group_key ` set (filter P db)) db = []) = (\<not> (\<exists>t\<in>set db. P t))" for P
    by (auto simp: filter_empty_conv)
  then show ?thesis
    by (simp add: query_ids_reconciled_def Let_def)
qed

text \<open>
  Claim C8. When some stored row of the id set is reconciled, an edit of amount, payee,
  account or date, a batch delete and a batch duplicate only push the
  \<^verbatim>\<open>confirm-transaction-edit\<close> modal: nothing is sent, and the edit-field modal or the
  batch comes from the modal's \<^verbatim>\<open>onConfirm\<close>. When no such row is reconciled, delete and
  duplicate send their batch at once and an edit opens the edit-field modal directly.
  The cleared toggle sends its batch at once in either case.
\<close>

theorem confirmation_gate:
  "((\<exists>t\<in>set db. id_t t \<in> set ids \<and> reconciled t) \<longrightarrow>
      (name \<in> {''amount'', ''payee'', ''account'', ''date''} \<longrightarrow>
         onBatchEdit name ids db = PushConfirmModal ''batchEditWithReconciled'' (PushEditField name))
      \<and> onBatchDelete r ids db = PushConfirmModal ''batchDeleteWithReconciled'' (ConfirmDelete ids)
      \<and> onBatchDuplicate r ids db
           = PushConfirmModal ''batchDuplicateWithReconciled'' (ConfirmDuplicate ids))
   \<and> (\<not> (\<exists>t\<in>set db. id_t t \<in> set ids \<and> reconciled t) \<longrightarrow>
      (name \<noteq> ''cleared'' \<longrightarrow> onBatchEdit name ids db = PushEditFieldModal name)
      \<and> onBatchDelete r ids db = Send (onConfirmDelete ids (query_ids ids db))
      \<and> onBatchDuplicate r ids db = Send (onConfirmDuplicate r ids db))
   \<and> onBatchEdit ''cleared'' ids db = Send (onChange ''cleared'' VNull ids (query_ids ids db))
   \<and> run_confirm r (PushEditField name) db = PushEditFieldModal name
   \<and> run_confirm r (ConfirmDelete ids) db = Send (onConfirmDelete ids (query_ids ids db))
   \<and> run_confirm r (ConfirmDuplicate ids) db = Send (onConfirmDuplicate r ids db)"
  by (simp add: onBatchEdit_def onBatchDelete_def onBatchDuplicate_def
      checkForReconciledTransactions_def run_confirm_def query_ids_reconciled_empty)

text \<open>
  With the reconciled row \<open>r\<close> among the ids the amount edit and the delete wait for
  confirmation; for \<open>x\<close> alone they proceed.
\<close>

theorem confirmation_gate_witness:
  "onBatchEdit ''amount'' [''x'', ''r'']
      [simple_row ''x'' 20 False False None, simple_row ''r'' 5 True True None]
     = PushConfirmModal ''batchEditWithReconciled'' (PushEditField ''amount'')
   \<and> onBatchDelete (\<lambda>g. g) [''x'', ''r'']
      [simple_row ''x'' 20 False False None, simple_row ''r'' 5 True True None]
     = PushConfirmModal ''batchDeleteWithReconciled'' (ConfirmDelete [''x'', ''r''])
   \<and> onBatchEdit ''amount'' [''x'']
      [simple_row ''x'' 20 False False None, simple_row ''r'' 5 True True None]
     = PushEditFieldModal ''amount''
   \<and> onBatchDelete (\<lambda>g. g) [''x'']
      [simple_row ''x'' 20 False False None, simple_row ''r'' 5 True True None]
     = Send (onConfirmDelete [''x''] (query_ids [''x'']
         [simple_row ''x'' 20 False False None, simple_row ''r'' 5 True True None]))"
  using confirmation_gate [of "[simple_row ''x'' 20 False False None, simple_row ''r'' 5 True True None]"
      "[''x'', ''r'']" "''amount''" "\<lambda>g. g"]
    confirmation_gate [of "[simple_row ''x'' 20 False False None, simple_row ''r'' 5 True True None]"
      "[''x'']" "''amount''" "\<lambda>g. g"]
  by (simp add: simple_row_def)

section \<open>Properties of the filter handlers\<close>

text \<open>
  With a search active, the handlers for the combinator, for clearing, updating,
  deleting and applying filters, for a sort click and for removing the sort all end by
  calling \<^verbatim>\<open>onSearch\<close> with the search text.
\<close>

lemma siblings_rerun_search:
  assumes "search s \<noteq> []"
  shows "reruns_search s (onCondOpChange v fs s)"
    and "reruns_search s (onClearFilters s)"
    and "reruns_search s (onUpdateFilter oldFilter updatedFilter s)"
    and "reruns_search s (onDeleteFilter flt s)"
    and "reruns_search s (onApplyFilter cond s)"
    and "reruns_search s (onSort headerClicked dir s)"
    and "reruns_search s (remove_sorting s)"
  using assms
  by (auto simp: reruns_search_def onCondOpChange_def onClearFilters_def onUpdateFilter_def
      onDeleteFilter_def onApplyFilter_def onSort_def applySort_def remove_sorting_def
      fetchTransactions_def record_call_def Let_def split: filter_arg.splits)

text \<open>\<^verbatim>\<open>onReloadSavedFilter\<close> never does.\<close>

lemma reload_never_reruns_search:
  "onReloadSavedFilter savedFilter item s = Some s' \<Longrightarrow> \<not> reruns_search s s'"
  by (auto simp: onReloadSavedFilter_def reruns_search_def record_call_def
      split: if_splits list.splits)

text \<open>
  Claim C6. Every change of the filter conditions, the combinator or the sort that
  changes the query is to re-run an active search. Reloading the saved filter \<open>f1\<close>
  while the search text is \<open>rent\<close> starts \<^verbatim>\<open>applyFilters\<close> with the saved conditions and
  calls nothing else: the search is not re-run, although the search text stays. Changing
  the combinator in the same state does call \<^verbatim>\<open>onSearch\<close>.
\<close>

theorem reload_saved_filter_skips_search:
  "search ((mounted (Some ''a1'') [] ''MM/dd/yyyy'' None)
       \<lparr>search := ''rent'',
        filtersList := [\<lparr>sf_id = Some ''f1'', sf_conditionsOp = ''and'',
          sf_conditions = [\<lparr>cond_ref = 1, cond_field = ''amount'', cond_op = ''gt'', cond_value = ''100'', customName = None\<rparr>],
          sf_status = None\<rparr>],
        filterId := Some \<lparr>ref_id = Some ''f1'', ref_status = Some ''changed''\<rparr>\<rparr>) = ''rent''
   \<and> map_option trace (onReloadSavedFilter
        \<lparr>sf_id = Some ''f1'', sf_conditionsOp = ''and'', sf_conditions = [], sf_status = Some ''saved''\<rparr>
        ''reload''
        ((mounted (Some ''a1'') [] ''MM/dd/yyyy'' None)
           \<lparr>search := ''rent'',
            filtersList := [\<lparr>sf_id = Some ''f1'', sf_conditionsOp = ''and'',
              sf_conditions = [\<lparr>cond_ref = 1, cond_field = ''amount'', cond_op = ''gt'', cond_value = ''100'', customName = None\<rparr>],
              sf_status = None\<rparr>],
            filterId := Some \<lparr>ref_id = Some ''f1'', ref_status = Some ''changed''\<rparr>\<rparr>))
     = Some [UpdateQuery (MakeTransactionsQuery (Some ''a1'')) False,
             ApplyFilters [\<lparr>cond_ref = 1, cond_field = ''amount'', cond_op = ''gt'', cond_value = ''100'', customName = None\<rparr>]]
   \<and> trace (onCondOpChange ''or''
        [\<lparr>cond_ref = 1, cond_field = ''amount'', cond_op = ''gt'', cond_value = ''100'', customName = None\<rparr>]
        ((mounted (Some ''a1'') [] ''MM/dd/yyyy'' None)
           \<lparr>search := ''rent'',
            filtersList := [\<lparr>sf_id = Some ''f1'', sf_conditionsOp = ''and'',
              sf_conditions = [\<lparr>cond_ref = 1, cond_field = ''amount'', cond_op = ''gt'', cond_value = ''100'', customName = None\<rparr>],
              sf_status = None\<rparr>],
            filterId := Some \<lparr>ref_id = Some ''f1'', ref_status = Some ''changed''\<rparr>\<rparr>))
     = [UpdateQuery (MakeTransactionsQuery (Some ''a1'')) False,
        ApplyFilters [\<lparr>cond_ref = 1, cond_field = ''amount'', cond_op = ''gt'', cond_value = ''100'', customName = None\<rparr>],
        OnSearch ''rent'']"
  by (simp add: onReloadSavedFilter_def onCondOpChange_def view_setup view_reads Let_def)

section \<open>The paged query runner of the view (Account.jsx)\<close>

text \<open>
  \<^verbatim>\<open>this.paged\<close> holds the runner that \<^verbatim>\<open>pagedQuery\<close> returned, or \<^verbatim>\<open>null\<close>. Runners are
  objects; each gets the next number as its identity. What the view does to runners is
  logged in order. Time is in milliseconds; \<open>timer\<close> is the time at which the pending
  call of the debounced \<^verbatim>\<open>onSearchDone\<close> fires, if one is pending.
\<close>

datatype runner_event =
    Subscribe nat query bool
  | Unsubscribe nat
  | Rerun nat

record paged_view = view +
  paged :: "nat option"
  nextRunner :: nat
  runner_log :: "runner_event list"
  timer :: "nat option"

text \<open>
  Modelled from the spec: \<^verbatim>\<open>pagedQuery\<close> (loot-core/src/client/query-helpers) is not
  among the sources. A runner delivers callbacks from its creation until
  \<^verbatim>\<open>unsubscribe()\<close>, which "must be idempotent"; \<^verbatim>\<open>run()\<close> "re-executes with the current
  query", and the model lets it bring an unsubscribed runner back to life.
\<close>

definition live_step :: "nat set \<Rightarrow> runner_event \<Rightarrow> nat set" where
  "live_step L e =
     (case e of Subscribe n q b \<Rightarrow> insert n L | Unsubscribe n \<Rightarrow> L - {n} | Rerun n \<Rightarrow> insert n L)"

text \<open>The live runners after a log: those subscribed or re-run and not unsubscribed since.\<close>

definition live_after :: "runner_event list \<Rightarrow> nat set" where
  "live_after evs = foldl live_step {} evs"

text \<open>\<^verbatim>\<open>updateQuery(query, isFiltered)\<close>: unsubscribe the runner held, then create the new one.\<close>

definition updateQuery :: "query \<Rightarrow> bool \<Rightarrow> paged_view \<Rightarrow> paged_view" where
  "updateQuery query isFiltered s =
     (let log1 = (case paged s of None \<Rightarrow> runner_log s
                  | Some r \<Rightarrow> runner_log s @ [Unsubscribe r])
      in s\<lparr>paged := Some (nextRunner s), nextRunner := Suc (nextRunner s),
            runner_log := log1 @ [Subscribe (nextRunner s) query isFiltered]\<rparr>)"

text \<open>The function wrapped by \<^verbatim>\<open>debounce(..., 150)\<close> in \<^verbatim>\<open>onSearchDone\<close>.\<close>

definition onSearchDone :: "paged_view \<Rightarrow> paged_view" where
  "onSearchDone s =
     (if search s = [] then updateQuery (currentQuery s) (length (filters s) > 0) s
      else updateQuery (MakeTransactionSearchQuery (currentQuery s) (search s) (dateFormat s)) True s)"

text \<open>
  \<^verbatim>\<open>onSearch(value)\<close> at time \<open>now\<close>. \<^verbatim>\<open>this.paged.unsubscribe()\<close> throws while \<^verbatim>\<open>this.paged\<close>
  is \<^verbatim>\<open>null\<close> (\<open>None\<close>). The \<^verbatim>\<open>setState\<close> callback calls the debounced function once the
  search text is stored. \<^verbatim>\<open>debounce\<close> is the npm package of that name, called without
  its \<^verbatim>\<open>immediate\<close> flag: every call restarts the wait, and the wrapped function runs
  once 150 ms have passed since the last call.
\<close>

definition onSearch :: "nat \<Rightarrow> string \<Rightarrow> paged_view \<Rightarrow> paged_view option" where
  "onSearch now v s =
     (case paged s of
        None \<Rightarrow> None
      | Some r \<Rightarrow> Some (s\<lparr>search := v, runner_log := runner_log s @ [Unsubscribe r],
                           timer := Some (now + 150)\<rparr>))"

text \<open>Time passing up to \<open>now\<close>: a pending call that is due runs.\<close>

definition advance :: "nat \<Rightarrow> paged_view \<Rightarrow> paged_view" where
  "advance now s =
     (case timer s of
        None \<Rightarrow> s
      | Some due \<Rightarrow> if due \<le> now then onSearchDone (s\<lparr>timer := None\<rparr>) else s)"

text \<open>\<^verbatim>\<open>refetchTransactions\<close> (\<^verbatim>\<open>this.paged?.run()\<close>) and \<^verbatim>\<open>componentWillUnmount\<close>.\<close>

definition refetchTransactions :: "paged_view \<Rightarrow> paged_view" where
  "refetchTransactions s =
     (case paged s of None \<Rightarrow> s | Some r \<Rightarrow> s\<lparr>runner_log := runner_log s @ [Rerun r]\<rparr>)"

definition componentWillUnmount :: "paged_view \<Rightarrow> paged_view" where
  "componentWillUnmount s =
     (case paged s of None \<Rightarrow> s | Some r \<Rightarrow> s\<lparr>runner_log := runner_log s @ [Unsubscribe r]\<rparr>)"

text \<open>
  What can happen to the view, each with its time: a keystroke in the search box, a
  handler that recomputes the query and calls \<^verbatim>\<open>updateQuery\<close> (\<^verbatim>\<open>fetchTransactions\<close>,
  \<^verbatim>\<open>applyFilters\<close>, \<^verbatim>\<open>applySort\<close>), a refetch, the unmount. An exception thrown by
  \<^verbatim>\<open>onSearch\<close> ends that handler and leaves the state as it was.
\<close>

datatype action =
    Search string
  | Query query bool
  | Refetch
  | Unmount

definition act :: "paged_view \<Rightarrow> nat \<times> action \<Rightarrow> paged_view" where
  "act s ta =
     (let s1 = advance (fst ta) s
      in case snd ta of
           Search v \<Rightarrow> (case onSearch (fst ta) v s1 of None \<Rightarrow> s1 | Some s2 \<Rightarrow> s2)
         | Query q b \<Rightarrow> updateQuery q b (s1\<lparr>currentQuery := q\<rparr>)
         | Refetch \<Rightarrow> refetchTransactions s1
         | Unmount \<Rightarrow> componentWillUnmount s1)"

definition run :: "(nat \<times> action) list \<Rightarrow> paged_view \<Rightarrow> paged_view" where
  "run acts s = foldl act s acts"

text \<open>
  Keystrokes that each arrive less than 150 ms after the one before (the first one at
  \<open>t0\<close>), so that no pending call fires between them.
\<close>

fun within_window :: "nat \<Rightarrow> (nat \<times> string) list \<Rightarrow> bool" where
  "within_window t0 [] = True"
| "within_window t0 ((t, v) # rest) = (t0 \<le> t \<and> t < t0 + 150 \<and> within_window t rest)"

definition keystrokes :: "(nat \<times> string) list \<Rightarrow> (nat \<times> action) list" where
  "keystrokes ks = map (\<lambda>(t, v). (t, Search v)) ks"

text \<open>The view as the constructor leaves it, with no runner yet.\<close>

definition constructed_paged ::
  "string option \<Rightarrow> account_row list \<Rightarrow> string \<Rightarrow> string option \<Rightarrow> paged_view" where
  "constructed_paged aid accts fmt loc =
     \<lparr>accountId = aid, accounts = accts, dateFormat = fmt, locationFilter = loc,
      filtersList = [], search = [], filters = [], filterId = None, conditionsOp = ''and'',
      sort_s = None,
      rootQuery = (case loc of Some f \<Rightarrow> LocationFilterQuery f | None \<Rightarrow> MakeTransactionsQuery aid),
      currentQuery = (case loc of Some f \<Rightarrow> LocationFilterQuery f | None \<Rightarrow> MakeTransactionsQuery aid),
      trace = [], paged = None, nextRunner = 0, runner_log = [], timer = None\<rparr>"

text \<open>
  At every moment of a log at most one runner is live; and the invariant of the view:
  a live runner is the one \<^verbatim>\<open>this.paged\<close> holds.
\<close>

definition one_live :: "runner_event list \<Rightarrow> bool" where
  "one_live evs = (\<forall>n. finite (live_after (take n evs)) \<and> card (live_after (take n evs)) \<le> 1)"

definition runner_inv :: "paged_view \<Rightarrow> bool" where
  "runner_inv s = (live_after (runner_log s) \<subseteq> set_option (paged s) \<and> one_live (runner_log s))"

subsection \<open>Properties of the runner and the debounced search\<close>

lemma live_after_snoc: "live_after (evs @ [e]) = live_step (live_after evs) e"
  by (simp add: live_after_def)

lemma one_live_snoc:
  assumes "one_live evs" "finite (live_after (evs @ [e]))" "card (live_after (evs @ [e])) \<le> 1"
  shows "one_live (evs @ [e])"
  unfolding one_live_def
proof
  fix n
  show "finite (live_after (take n (evs @ [e]))) \<and> card (live_after (take n (evs @ [e]))) \<le> 1"
  proof (cases "n \<le> length evs")
    case True
    with assms(1) show ?thesis by (simp add: one_live_def)
  next
    case False
    with assms(2,3) show ?thesis by simp
  qed
qed

lemma subset_single: "L \<subseteq> {r} \<Longrightarrow> L - {r} = {}"
  by auto

lemma inv_unsubscribe:
  assumes "runner_inv s" "paged s = Some r"
  shows "runner_inv (s\<lparr>runner_log := runner_log s @ [Unsubscribe r]\<rparr>)"
    and "live_after (runner_log s @ [Unsubscribe r]) = {}"
proof -
  from assms have L: "live_after (runner_log s) \<subseteq> {r}" and o: "one_live (runner_log s)"
    by (simp_all add: runner_inv_def)
  then show e: "live_after (runner_log s @ [Unsubscribe r]) = {}"
    by (simp add: live_after_snoc live_step_def subset_single)
  with o have "one_live (runner_log s @ [Unsubscribe r])"
    by (intro one_live_snoc) simp_all
  with e assms(2) show "runner_inv (s\<lparr>runner_log := runner_log s @ [Unsubscribe r]\<rparr>)"
    by (simp add: runner_inv_def)
qed

lemma inv_rerun:
  assumes "runner_inv s" "paged s = Some r"
  shows "runner_inv (s\<lparr>runner_log := runner_log s @ [Rerun r]\<rparr>)"
proof -
  from assms have L: "live_after (runner_log s) \<subseteq> {r}" and o: "one_live (runner_log s)"
    by (simp_all add: runner_inv_def)
  then have e: "live_after (runner_log s @ [Rerun r]) = {r}"
    by (auto simp add: live_after_snoc live_step_def)
  with o have "one_live (runner_log s @ [Rerun r])"
    by (intro one_live_snoc) simp_all
  with e assms(2) show ?thesis
    by (simp add: runner_inv_def)
qed

lemma inv_updateQuery:
  assumes "runner_inv s"
  shows "runner_inv (updateQuery q b s)"
proof (cases "paged s")
  case None
  with assms have L: "live_after (runner_log s) = {}" and o: "one_live (runner_log s)"
    by (simp_all add: runner_inv_def)
  then have e: "live_after (runner_log s @ [Subscribe (nextRunner s) q b]) = {nextRunner s}"
    by (simp add: live_after_snoc live_step_def)
  with o have "one_live (runner_log s @ [Subscribe (nextRunner s) q b])"
    by (intro one_live_snoc) simp_all
  with e None show ?thesis
    by (simp add: runner_inv_def updateQuery_def)
next
  case (Some r)
  have e1: "live_after (runner_log s @ [Unsubscribe r]) = {}"
    by (rule inv_unsubscribe(2) [OF assms Some])
  have o1: "one_live (runner_log s @ [Unsubscribe r])"
    using inv_unsubscribe(1) [OF assms Some] by (simp add: runner_inv_def)
  have "live_after ((runner_log s @ [Unsubscribe r]) @ [Subscribe (nextRunner s) q b])
      = live_step (live_after (runner_log s @ [Unsubscribe r])) (Subscribe (nextRunner s) q b)"
    by (rule live_after_snoc)
  also have "\<dots> = {nextRunner s}"
    unfolding e1 by (simp add: live_step_def)
  finally have e: "live_after ((runner_log s @ [Unsubscribe r]) @ [Subscribe (nextRunner s) q b])
      = {nextRunner s}" .
  have "one_live ((runner_log s @ [Unsubscribe r]) @ [Subscribe (nextRunner s) q b])"
  proof (rule one_live_snoc [OF o1])
    show "finite (live_after ((runner_log s @ [Unsubscribe r]) @ [Subscribe (nextRunner s) q b]))"
      unfolding e by simp
    show "card (live_after ((runner_log s @ [Unsubscribe r]) @ [Subscribe (nextRunner s) q b])) \<le> 1"
      unfolding e by simp
  qed
  with e Some show ?thesis
    by (simp add: runner_inv_def updateQuery_def)
qed

lemma runner_inv_field_update:
  "runner_inv (s\<lparr>timer := x\<rparr>) = runner_inv s"
  "runner_inv (s\<lparr>search := y\<rparr>) = runner_inv s"
  "runner_inv (s\<lparr>currentQuery := z\<rparr>) = runner_inv s"
  by (simp_all add: runner_inv_def)

lemma inv_advance:
  assumes "runner_inv s"
  shows "runner_inv (advance now s)"
  using assms
  by (auto simp add: advance_def onSearchDone_def inv_updateQuery runner_inv_field_update
      split: option.splits)

lemma inv_act:
  assumes "runner_inv s"
  shows "runner_inv (act s ta)"
proof -
  let ?s1 = "advance (fst ta) s"
  have i1: "runner_inv ?s1"
    using assms by (rule inv_advance)
  show ?thesis
  proof (cases "snd ta")
    case (Search v)
    show ?thesis
    proof (cases "paged ?s1")
      case None
      with Search i1 show ?thesis
        by (simp add: act_def onSearch_def Let_def)
    next
      case (Some r)
      from inv_unsubscribe(1) [OF i1 Some]
      have "runner_inv (?s1\<lparr>search := v, runner_log := runner_log ?s1 @ [Unsubscribe r],
          timer := Some (fst ta + 150)\<rparr>)"
        by (simp add: runner_inv_def)
      with Search Some show ?thesis
        by (simp add: act_def onSearch_def Let_def)
    qed
  next
    case (Query q b)
    with i1 show ?thesis
      by (simp add: act_def Let_def inv_updateQuery runner_inv_field_update)
  next
    case Refetch
    with i1 show ?thesis
      by (auto simp add: act_def Let_def refetchTransactions_def inv_rerun split: option.splits)
  next
    case Unmount
    with i1 show ?thesis
      by (auto simp add: act_def Let_def componentWillUnmount_def inv_unsubscribe(1) split: option.splits)
  qed
qed

lemma inv_run:
  "runner_inv s \<Longrightarrow> runner_inv (run acts s)"
  unfolding run_def
  by (induction acts arbitrary: s) (simp_all add: inv_act)

lemma inv_initial:
  "paged s = None \<Longrightarrow> runner_log s = [] \<Longrightarrow> runner_inv s"
  by (simp add: runner_inv_def one_live_def live_after_def)

text \<open>
  Claim C7. From the constructor state, after any run of keystrokes, query
  recomputations, refetches, unmounts and debounced calls, at every moment of the log
  at most one runner is live, and it is the one the view holds. \<^verbatim>\<open>updateQuery\<close>
  unsubscribes the runner held before it subscribes the new one, and after
  \<^verbatim>\<open>componentWillUnmount\<close> no runner is live.
\<close>

theorem one_live_runner:
  assumes "paged s = None" "runner_log s = []"
  shows "finite (live_after (take n (runner_log (run acts s))))
     \<and> card (live_after (take n (runner_log (run acts s)))) \<le> 1
     \<and> live_after (runner_log (run acts s)) \<subseteq> set_option (paged (run acts s))
     \<and> live_after (runner_log (componentWillUnmount (run acts s))) = {}
     \<and> runner_log (updateQuery q b (run acts s))
         = runner_log (run acts s)
           @ (case paged (run acts s) of None \<Rightarrow> [] | Some r \<Rightarrow> [Unsubscribe r])
           @ [Subscribe (nextRunner (run acts s)) q b]"
proof -
  have i: "runner_inv (run acts s)"
    using assms by (intro inv_run inv_initial)
  then have 1: "finite (live_after (take n (runner_log (run acts s))))
     \<and> card (live_after (take n (runner_log (run acts s)))) \<le> 1"
    and 2: "live_after (runner_log (run acts s)) \<subseteq> set_option (paged (run acts s))"
    by (simp_all add: runner_inv_def one_live_def)
  have 3: "live_after (runner_log (componentWillUnmount (run acts s))) = {}"
  proof (cases "paged (run acts s)")
    case None
    with 2 show ?thesis by (simp add: componentWillUnmount_def)
  next
    case (Some r)
    with inv_unsubscribe(2) [OF i Some] show ?thesis
      by (simp add: componentWillUnmount_def)
  qed
  have 4: "runner_log (updateQuery q b (run acts s))
         = runner_log (run acts s)
           @ (case paged (run acts s) of None \<Rightarrow> [] | Some r \<Rightarrow> [Unsubscribe r])
           @ [Subscribe (nextRunner (run acts s)) q b]"
    by (simp add: updateQuery_def split: option.splits)
  from 1 2 3 4 show ?thesis by (intro conjI) simp_all
qed

text \<open>A mount, a keystroke, its debounced query, a refetch and the unmount.\<close>

theorem one_live_runner_witness:
  "card (live_after (take 3 (runner_log (run
      [(0, Query (MakeTransactionsQuery (Some ''a1'')) False), (10, Search ''r''),
       (400, Refetch), (500, Unmount)]
      (constructed_paged (Some ''a1'') [] ''MM/dd/yyyy'' None))))) \<le> 1
   \<and> live_after (runner_log (componentWillUnmount (run
      [(0, Query (MakeTransactionsQuery (Some ''a1'')) False), (10, Search ''r''),
       (400, Refetch), (500, Unmount)]
      (constructed_paged (Some ''a1'') [] ''MM/dd/yyyy'' None)))) = {}"
  using one_live_runner [of "constructed_paged (Some ''a1'') [] ''MM/dd/yyyy'' None" 3
      "[(0, Query (MakeTransactionsQuery (Some ''a1'')) False), (10, Search ''r''),
       (400, Refetch), (500, Unmount)]"]
  by (simp add: constructed_paged_def)

lemma burst_rest:
  "paged s = Some r \<Longrightarrow> timer s = Some (t0 + 150) \<Longrightarrow> within_window t0 rest \<Longrightarrow>
   run (keystrokes rest) s =
     (if rest = [] then s
      else s\<lparr>search := snd (last rest),
             runner_log := runner_log s @ replicate (length rest) (Unsubscribe r),
             timer := Some (fst (last rest) + 150)\<rparr>)"
proof (induction rest arbitrary: s t0)
  case Nil
  then show ?case by (simp add: run_def keystrokes_def)
next
  case (Cons k rest)
  obtain t v where k: "k = (t, v)" by (cases k)
  let ?s' = "s\<lparr>search := v, runner_log := runner_log s @ [Unsubscribe r], timer := Some (t + 150)\<rparr>"
  from Cons.prems k have t: "t < t0 + 150" and w: "within_window t rest"
    by simp_all
  have a: "act s (t, Search v) = ?s'"
    using Cons.prems(1,2) t by (simp add: act_def advance_def onSearch_def Let_def)
  have "run (keystrokes (k # rest)) s = run (keystrokes rest) ?s'"
    by (simp add: run_def keystrokes_def k a)
  also have "\<dots> = (if rest = [] then ?s'
      else ?s'\<lparr>search := snd (last rest),
             runner_log := runner_log ?s' @ replicate (length rest) (Unsubscribe r),
             timer := Some (fst (last rest) + 150)\<rparr>)"
    using Cons.prems(1) by (intro Cons.IH [OF _ _ w]) simp_all
  finally show ?case
    by (simp add: k)
qed

text \<open>
  Claim C9. On a mounted view with no call pending, a burst of keystrokes, each less
  than 150 ms after the one before, followed by 150 ms of silence: every keystroke
  only unsubscribes the runner held, and exactly one new runner is created, for the
  search query of the last string; when the last string is empty it is created for the
  current query itself, flagged as filtered exactly when filters are active.
\<close>

theorem debounced_search:
  assumes "paged s = Some r" "timer s = None" "within_window t0 rest"
    and "fst (last ((t0, v0) # rest)) + 150 \<le> T"
  shows "(let ks = (t0, v0) # rest;
              final = snd (last ks);
              s' = advance T (run (keystrokes ks) s)
          in runner_log s' =
               runner_log s @ replicate (length ks) (Unsubscribe r) @
                 [Unsubscribe r,
                  Subscribe (nextRunner s)
                    (if final = [] then currentQuery s
                     else MakeTransactionSearchQuery (currentQuery s) final (dateFormat s))
                    (if final = [] then length (filters s) > 0 else True)]
             \<and> search s' = final \<and> timer s' = None \<and> paged s' = Some (nextRunner s))"
proof -
  let ?s1 = "s\<lparr>search := v0, runner_log := runner_log s @ [Unsubscribe r], timer := Some (t0 + 150)\<rparr>"
  have a: "act s (t0, Search v0) = ?s1"
    using assms(1,2) by (simp add: act_def advance_def onSearch_def Let_def)
  have r: "run (keystrokes ((t0, v0) # rest)) s = run (keystrokes rest) ?s1"
    by (simp add: run_def keystrokes_def a)
  have b: "run (keystrokes rest) ?s1 =
     (if rest = [] then ?s1
      else ?s1\<lparr>search := snd (last rest),
             runner_log := runner_log ?s1 @ replicate (length rest) (Unsubscribe r),
             timer := Some (fst (last rest) + 150)\<rparr>)"
    using assms(1) by (intro burst_rest [OF _ _ assms(3)]) simp_all
  show ?thesis
  proof (cases "rest = []")
    case True
    with assms(4) show ?thesis
      unfolding Let_def r b using assms(1)
      by (simp add: advance_def onSearchDone_def updateQuery_def)
  next
    case False
    with assms(4) show ?thesis
      unfolding Let_def r b using assms(1)
      by (simp add: advance_def onSearchDone_def updateQuery_def replicate_append_same)
  qed
qed

text \<open>The text \<open>rent\<close> typed in five keystrokes within 100 ms.\<close>

theorem debounced_search_witness:
  "runner_log (advance 250 (run (keystrokes
      [(0, ''r''), (20, ''re''), (40, ''ren''), (60, ''renr''), (100, ''rent'')])
      (updateQuery (MakeTransactionsQuery (Some ''a1'')) False
         (constructed_paged (Some ''a1'') [] ''MM/dd/yyyy'' None))))
    = [Subscribe 0 (MakeTransactionsQuery (Some ''a1'')) False,
       Unsubscribe 0, Unsubscribe 0, Unsubscribe 0, Unsubscribe 0, Unsubscribe 0, Unsubscribe 0,
       Subscribe 1 (MakeTransactionSearchQuery (MakeTransactionsQuery (Some ''a1'')) ''rent'' ''MM/dd/yyyy'') True]"
  using debounced_search [of "updateQuery (MakeTransactionsQuery (Some ''a1'')) False
         (constructed_paged (Some ''a1'') [] ''MM/dd/yyyy'' None)" 0 0
      "[(20, ''re''), (40, ''ren''), (60, ''renr''), (100, ''rent'')]" "''r''" 250]
  by (simp add: updateQuery_def constructed_paged_def Let_def numeral_eq_Suc)

end
